theory Spec2Isabelle
  imports Main "HOL-Library.Sublist"
begin

section \<open>Data model of the extension-activation engine\<close>

text \<open>
  The development embeds \<^verbatim>\<open>shared/src/api/client/services/extensionsService.ts\<close>:
  the function \<^verbatim>\<open>extensionsWithMatchedActivationEvent\<close>, the memoized script-URL
  resolver and the observable pipeline of \<^verbatim>\<open>activeExtensions\<close>.

  JavaScript values read by the code are modelled as the code tests them. A field that
  the code tests for truthiness and then uses as an array is one of three things:
  falsy (\<open>Absent\<close>: null or undefined), an array (\<open>Array\<close>), or a truthy value on which
  the array method used by the code throws a \<^verbatim>\<open>TypeError\<close> (\<open>NotArray\<close>; a manifest
  is unvalidated JSON). The last case is what the \<^verbatim>\<open>try\<close>/\<^verbatim>\<open>catch\<close> of the source
  guards against.
\<close>

datatype 'a js_array = Absent | Array "'a list" | NotArray

datatype exn = TypeError

text \<open>
  \<^verbatim>\<open>x.manifest\<close> is absent (\<^verbatim>\<open>!x.manifest\<close>), an error placeholder
  (\<^verbatim>\<open>isErrorLike(x.manifest)\<close>) or a manifest. Of a manifest the code reads only
  \<^verbatim>\<open>activationEvents\<close>; its remaining fields are the parameter \<open>'r\<close>.
\<close>

datatype 'r manifest_value =
    NoManifest
  | ErrorLike string
  | ExtensionManifest "string js_array" 'r

record 'r ConfiguredExtension =
  id_ext :: string
  manifest :: "'r manifest_value"

record TextDocumentItem =
  languageId :: string

record Model =
  visibleTextDocuments :: "TextDocumentItem js_array"

record ExecutableExtension =
  id_exe :: string
  scriptURL :: string

section \<open>extensionsWithMatchedActivationEvent\<close>

text \<open>
  Lines 128-130: the languages of the visible documents; \<^verbatim>\<open>[]\<close> when
  \<^verbatim>\<open>model.visibleTextDocuments\<close> is falsy.
\<close>

fun visibleTextDocumentLanguages :: "Model \<Rightarrow> exn + string list" where
  "visibleTextDocumentLanguages model =
     (case visibleTextDocuments model of
        Absent \<Rightarrow> Inr []
      | Array docs \<Rightarrow> Inr (map languageId docs)
      | NotArray \<Rightarrow> Inl TypeError)"

text \<open>
  Lines 131-133: \<^verbatim>\<open>activationEvents.some(e => e === '*' ||
  visibleTextDocumentLanguages.some(l => e === `onLanguage:${l}`))\<close>.
\<close>

definition eventMatches :: "string list \<Rightarrow> string \<Rightarrow> bool" where
  "eventMatches languages e =
     (e = ''*'' \<or> list_ex (\<lambda>l. e = ''onLanguage:'' @ l) languages)"

fun someActivationEvent :: "string js_array \<Rightarrow> string list \<Rightarrow> exn + bool" where
  "someActivationEvent (Array events) languages = Inr (list_ex (eventMatches languages) events)"
| "someActivationEvent NotArray languages = Inl TypeError"
| "someActivationEvent Absent languages = Inl TypeError"

text \<open>
  Lines 117-133, the body of the \<^verbatim>\<open>try\<close>: \<open>Inr b\<close> is \<^verbatim>\<open>return b\<close>, \<open>Inl e\<close> is an
  exception thrown before a \<^verbatim>\<open>return\<close> is reached. The three early returns come first,
  in the order of the source; the languages are computed before the events are
  scanned.
\<close>

fun tryActivation :: "'r ConfiguredExtension \<Rightarrow> Model \<Rightarrow> exn + bool" where
  "tryActivation x model =
     (case manifest x of
        NoManifest \<Rightarrow> Inr False
      | ErrorLike err \<Rightarrow> Inr False
      | ExtensionManifest activationEvents r \<Rightarrow>
          (if activationEvents = Absent then Inr False
           else (case visibleTextDocumentLanguages model of
                   Inl err \<Rightarrow> Inl err
                 | Inr languages \<Rightarrow> someActivationEvent activationEvents languages)))"

text \<open>
  Lines 116-138, the callback of \<^verbatim>\<open>filter\<close>: the \<^verbatim>\<open>catch\<close> logs, and the function
  falls through to \<^verbatim>\<open>return false\<close>.
\<close>

definition activationCallback :: "Model \<Rightarrow> 'r ConfiguredExtension \<Rightarrow> bool" where
  "activationCallback model x =
     (case tryActivation x model of Inl err \<Rightarrow> False | Inr b \<Rightarrow> b)"

definition extensionsWithMatchedActivationEvent ::
  "'r ConfiguredExtension list \<Rightarrow> Model \<Rightarrow> 'r ConfiguredExtension list" where
  "extensionsWithMatchedActivationEvent enabledExtensions model =
     filter (activationCallback model) enabledExtensions"

section \<open>The memoized script-URL resolver\<close>

text \<open>
  The host's resolver \<^verbatim>\<open>platformContext.getScriptURLForExtension\<close> is external and
  need not answer the same way twice. An invocation throws synchronously, or it
  returns a value or a promise, which \<^verbatim>\<open>Promise.resolve\<close> (line 104) makes a promise
  that is fulfilled with a string or null, or rejected. \<open>resolver n url\<close> is what the
  \<open>n\<close>-th invocation (counted from 0 over the engine's lifetime), made with \<open>url\<close>,
  does.
\<close>

datatype resolver_call = Throws string | Fulfilled "string option" | Rejected string

text \<open>
  Modelled from the spec: \<^verbatim>\<open>memoizeAsync\<close> (imported from \<^verbatim>\<open>../../util\<close>, not
  under src/). The spec has resolution memoized by key: the function is invoked at
  most once per distinct key for the engine's lifetime, and the outcome, whatever it
  is, is cached permanently. The cache maps a key to the outcome of the promise the
  function returned; \<open>calls\<close> is the log of the keys the wrapped function was invoked
  with. A function that throws (\<open>Inl\<close>) returns no promise: the exception passes to
  the caller and nothing is cached.
\<close>

definition memoizeAsync ::
  "(nat \<Rightarrow> 'k \<Rightarrow> 'e + 'v) \<Rightarrow> 'k \<Rightarrow> ('k \<rightharpoonup> 'v) \<times> 'k list \<Rightarrow>
     ('e + 'v) \<times> ('k \<rightharpoonup> 'v) \<times> 'k list" where
  "memoizeAsync func key =
     (\<lambda>(cache, calls).
        case cache key of
          Some hit \<Rightarrow> (Inr hit, cache, calls)
        | None \<Rightarrow>
            (case func (length calls) key of
               Inl e \<Rightarrow> (Inl e, cache, calls @ [key])
             | Inr p \<Rightarrow> (Inr p, cache(key \<mapsto> p), calls @ [key])))"

text \<open>
  Lines 103-107, the function that is memoized:
  \<^verbatim>\<open>Promise.resolve(getScriptURLForExtension(url)).catch(err => null)\<close>. The resolver
  is called while the argument of \<^verbatim>\<open>Promise.resolve\<close> is evaluated, so an exception
  it throws synchronously is not seen by \<^verbatim>\<open>catch\<close>; a rejection is, and becomes
  null. The key is the URL itself.
\<close>

definition fetchScriptURL :: "resolver_call \<Rightarrow> string + string option" where
  "fetchScriptURL r =
     (case r of Throws e \<Rightarrow> Inl e | Fulfilled v \<Rightarrow> Inr v | Rejected err \<Rightarrow> Inr None)"

definition memoizedGetScriptURLForExtension ::
  "(nat \<Rightarrow> string \<Rightarrow> resolver_call) \<Rightarrow> string \<Rightarrow>
     (string \<rightharpoonup> string option) \<times> string list \<Rightarrow>
     (string + string option) \<times> (string \<rightharpoonup> string option) \<times> string list" where
  "memoizedGetScriptURLForExtension resolver =
     memoizeAsync (\<lambda>n url. fetchScriptURL (resolver n url))"

section \<open>The pipeline of activeExtensions\<close>

text \<open>
  What the service is constructed with: the host's resolver, the activation filter
  (a constructor argument, \<^verbatim>\<open>extensionsWithMatchedActivationEvent\<close> by default) and
  \<^verbatim>\<open>getScriptURLFromExtensionManifest\<close>, which is imported from
  \<^verbatim>\<open>../../../extensions/extension\<close> (not under src/) and is a parameter here: it
  maps an extension to the URL string passed to the memoized resolver. The pipeline
  has no handler around the filter or around this function; both are taken to
  return.
\<close>

record 'r ExtensionsService =
  getScriptURLForExtension :: "nat \<Rightarrow> string \<Rightarrow> resolver_call"
  getScriptURLFromExtensionManifest :: "'r ConfiguredExtension \<Rightarrow> string"
  extensionActivationFilter ::
    "'r ConfiguredExtension list \<Rightarrow> Model \<Rightarrow> 'r ConfiguredExtension list"

text \<open>
  The state of one subscription. \<open>activatedExtensionIDs\<close> is the array of line 69;
  \<open>latest\<close> is the pair \<^verbatim>\<open>combineLatest\<close> delivered last; \<open>previous\<close> is the value
  \<^verbatim>\<open>distinctUntilChanged\<close> let through last; \<open>cache\<close> and \<open>invocations\<close> belong to the
  memoized resolver; \<open>pending\<close> is the inner subscription of \<^verbatim>\<open>switchMap\<close>, the
  promise of the projection: \<open>Inr\<close> of the batch being resolved (for each extension
  its id and the outcome of its promise), or \<open>Inl\<close> of the exception the projection
  threw, with which its promise is rejected.
\<close>

record 'r EngineState =
  activatedExtensionIDs :: "string list"
  latest :: "(Model \<times> 'r ConfiguredExtension list) option"
  previous :: "'r ConfiguredExtension list option"
  cache :: "string \<rightharpoonup> string option"
  invocations :: "string list"
  pending :: "(string + (string \<times> string option) list) option"

definition initial :: "'r EngineState" where
  "initial = \<lparr>activatedExtensionIDs = [], latest = None, previous = None,
              cache = Map.empty, invocations = [], pending = None\<rparr>"

text \<open>Lines 73-77: push the id of each matched extension that is not yet included.\<close>

fun pushActivated :: "string list \<Rightarrow> 'r ConfiguredExtension list \<Rightarrow> string list" where
  "pushActivated ids [] = ids"
| "pushActivated ids (x # xs) =
     pushActivated (if id_ext x \<in> set ids then ids else ids @ [id_ext x]) xs"

text \<open>
  Line 79: the enabled extensions whose id is included in the activated ids. The
  enabled extensions are an array, which is truthy also when empty, so the
  conditional of that line takes its first branch.
\<close>

definition activatedAndEnabled ::
  "string list \<Rightarrow> 'r ConfiguredExtension list \<Rightarrow> 'r ConfiguredExtension list" where
  "activatedAndEnabled ids extensions = filter (\<lambda>x. id_ext x \<in> set ids) extensions"

text \<open>
  Modelled from the spec: \<^verbatim>\<open>isEqual\<close> (imported from \<^verbatim>\<open>../../util\<close>, not under
  src/) is deep equality of the two lists.
\<close>

definition isEqual :: "'a \<Rightarrow> 'a \<Rightarrow> bool" where
  "isEqual a b = (a = b)"

text \<open>
  Lines 70-80, one delivery of \<^verbatim>\<open>combineLatest\<close>: the \<^verbatim>\<open>tap\<close>, the \<^verbatim>\<open>map\<close> and
  \<^verbatim>\<open>distinctUntilChanged\<close>. The result is the new state and the list passed on to
  \<^verbatim>\<open>switchMap\<close>, or \<open>None\<close> when the list is suppressed.
\<close>

definition activationStage ::
  "'r ExtensionsService \<Rightarrow> 'r EngineState \<Rightarrow> Model \<times> 'r ConfiguredExtension list \<Rightarrow>
     'r EngineState \<times> 'r ConfiguredExtension list option" where
  "activationStage svc st input =
     (let (model, enabledExtensions) = input;
          ids = pushActivated (activatedExtensionIDs st)
                  (extensionActivationFilter svc enabledExtensions model);
          extensions = activatedAndEnabled ids enabledExtensions;
          st1 = st\<lparr>activatedExtensionIDs := ids, latest := Some input\<rparr>
      in case previous st of
           None \<Rightarrow> (st1\<lparr>previous := Some extensions\<rparr>, Some extensions)
         | Some a \<Rightarrow>
             if isEqual a extensions then (st1, None)
             else (st1\<lparr>previous := Some extensions\<rparr>, Some extensions))"

text \<open>
  Lines 81-97, the synchronous part of the projection of \<^verbatim>\<open>switchMap\<close>: the memoized
  resolver is called for each extension of the batch, in list order. An exception
  that escapes the memoized resolver ends the \<^verbatim>\<open>map\<close>: the extensions after it are
  not resolved, and the exception is what the projection throws.
\<close>

fun resolveAll ::
  "'r ExtensionsService \<Rightarrow> 'r ConfiguredExtension list \<Rightarrow>
     (string \<rightharpoonup> string option) \<times> string list \<Rightarrow>
     (string + (string \<times> string option) list) \<times>
       (string \<rightharpoonup> string option) \<times> string list" where
  "resolveAll svc [] memo = (Inr [], memo)"
| "resolveAll svc (x # xs) memo =
     (case memoizedGetScriptURLForExtension (getScriptURLForExtension svc)
             (getScriptURLFromExtensionManifest svc x) memo of
        (Inl e, memo1) \<Rightarrow> (Inl e, memo1)
      | (Inr resolved, memo1) \<Rightarrow>
          (case resolveAll svc xs memo1 of
             (Inl e, memo2) \<Rightarrow> (Inl e, memo2)
           | (Inr rest, memo2) \<Rightarrow> (Inr ((id_ext x, resolved) # rest), memo2)))"

text \<open>
  Lines 87-98: an extension whose URL resolved to null becomes null and is filtered
  out; the others become executable extensions.
\<close>

fun executable :: "(string \<times> string option) list \<Rightarrow> ExecutableExtension list" where
  "executable [] = []"
| "executable ((i, None) # rest) = executable rest"
| "executable ((i, Some u) # rest) = \<lparr>id_exe = i, scriptURL = u\<rparr> # executable rest"

text \<open>
  The events of a subscription: a delivery of \<^verbatim>\<open>combineLatest\<close>, and the settling
  of the promise of the pending projection (\<^verbatim>\<open>Promise.all\<close>). A batch that is still
  pending when \<^verbatim>\<open>distinctUntilChanged\<close> lets the next list through is replaced by
  \<^verbatim>\<open>switchMap\<close> and never emits; its resolver calls stay in the cache. When the
  pending promise is rejected, its settling emits no list: the subscriber gets the
  error notification (\<open>errorOf\<close>), which ends the subscription. \<open>step\<close> is the reaction
  of the live pipeline to one event; a run of the pipeline is a list of events in
  which nothing follows an error notification (\<open>isRun\<close>).
\<close>

datatype 'r event = Input "Model \<times> 'r ConfiguredExtension list" | Settle

definition step ::
  "'r ExtensionsService \<Rightarrow> 'r EngineState \<Rightarrow> 'r event \<Rightarrow>
     'r EngineState \<times> ExecutableExtension list option" where
  "step svc st ev =
     (case ev of
        Input input \<Rightarrow>
          (case activationStage svc st input of
             (st1, None) \<Rightarrow> (st1, None)
           | (st1, Some extensions) \<Rightarrow>
               (let (batch, (c, calls)) = resolveAll svc extensions (cache st1, invocations st1)
                in (st1\<lparr>cache := c, invocations := calls, pending := Some batch\<rparr>, None)))
      | Settle \<Rightarrow>
          (case pending st of
             None \<Rightarrow> (st, None)
           | Some (Inl e) \<Rightarrow> (st\<lparr>pending := None\<rparr>, None)
           | Some (Inr batch) \<Rightarrow> (st\<lparr>pending := None\<rparr>, Some (executable batch))))"

definition errorOf :: "'r EngineState \<Rightarrow> 'r event \<Rightarrow> string option" where
  "errorOf st ev =
     (case ev of
        Input input \<Rightarrow> None
      | Settle \<Rightarrow> (case pending st of Some (Inl e) \<Rightarrow> Some e | _ \<Rightarrow> None))"

fun isRun :: "'r ExtensionsService \<Rightarrow> 'r EngineState \<Rightarrow> 'r event list \<Rightarrow> bool" where
  "isRun svc st [] = True"
| "isRun svc st (ev # evs) =
     (case errorOf st ev of
        Some e \<Rightarrow> evs = []
      | None \<Rightarrow> isRun svc (fst (step svc st ev)) evs)"

text \<open>The state after a sequence of events, and what the subscriber has seen.\<close>

fun exec :: "'r ExtensionsService \<Rightarrow> 'r EngineState \<Rightarrow> 'r event list \<Rightarrow> 'r EngineState" where
  "exec svc st [] = st"
| "exec svc st (ev # evs) = exec svc (fst (step svc st ev)) evs"

fun outputs ::
  "'r ExtensionsService \<Rightarrow> 'r EngineState \<Rightarrow> 'r event list \<Rightarrow> ExecutableExtension list list" where
  "outputs svc st [] = []"
| "outputs svc st (ev # evs) =
     (case snd (step svc st ev) of None \<Rightarrow> [] | Some out \<Rightarrow> [out])
       @ outputs svc (fst (step svc st ev)) evs"

text \<open>The lists that left \<^verbatim>\<open>distinctUntilChanged\<close>, in order.\<close>

fun passed ::
  "'r ExtensionsService \<Rightarrow> 'r EngineState \<Rightarrow> 'r event list \<Rightarrow> 'r ConfiguredExtension list list" where
  "passed svc st [] = []"
| "passed svc st (Settle # evs) = passed svc (fst (step svc st Settle)) evs"
| "passed svc st (Input input # evs) =
     (case snd (activationStage svc st input) of None \<Rightarrow> [] | Some l \<Rightarrow> [l])
       @ passed svc (fst (step svc st (Input input))) evs"

text \<open>The deliveries of \<^verbatim>\<open>combineLatest\<close> among the events.\<close>

fun inputsOf :: "'r event list \<Rightarrow> (Model \<times> 'r ConfiguredExtension list) list" where
  "inputsOf [] = []"
| "inputsOf (Input input # evs) = input # inputsOf evs"
| "inputsOf (Settle # evs) = inputsOf evs"

text \<open>The service with the default activation filter.\<close>

definition defaultService ::
  "(nat \<Rightarrow> string \<Rightarrow> resolver_call) \<Rightarrow> ('r ConfiguredExtension \<Rightarrow> string) \<Rightarrow> 'r ExtensionsService" where
  "defaultService resolver getURL =
     \<lparr>getScriptURLForExtension = resolver,
      getScriptURLFromExtensionManifest = getURL,
      extensionActivationFilter = extensionsWithMatchedActivationEvent\<rparr>"

section \<open>Invariants and auxiliary functions\<close>

text \<open>
  Whether an invocation returned, and the value its promise then has for the cache.
\<close>

definition returns :: "resolver_call \<Rightarrow> bool" where
  "returns r = (case r of Throws e \<Rightarrow> False | _ \<Rightarrow> True)"

definition answer :: "resolver_call \<Rightarrow> string option" where
  "answer r = (case r of Fulfilled v \<Rightarrow> v | _ \<Rightarrow> None)"

text \<open>
  The memoization cache and the log of resolver calls agree: a cached value is the
  answer of an invocation that returned, every invocation that returned is cached
  with its answer, and a URL is invoked again only after an invocation that threw.
\<close>

definition memo_inv ::
  "(nat \<Rightarrow> string \<Rightarrow> resolver_call) \<Rightarrow> (string \<rightharpoonup> string option) \<times> string list \<Rightarrow> bool" where
  "memo_inv resolver memo =
     (let c = fst memo; calls = snd memo in
        (\<forall>url v. c url = Some v \<longrightarrow>
           (\<exists>n<length calls. calls ! n = url \<and> returns (resolver n url) \<and>
              answer (resolver n url) = v)) \<and>
        (\<forall>n<length calls. returns (resolver n (calls ! n)) \<longrightarrow>
           c (calls ! n) = Some (answer (resolver n (calls ! n)))) \<and>
        (\<forall>m<length calls. \<forall>n<m. calls ! n = calls ! m \<longrightarrow>
           \<not> returns (resolver n (calls ! n))))"

text \<open>The batch of a list of extensions, read off a cache that holds their URLs.\<close>

definition batchOf ::
  "'r ExtensionsService \<Rightarrow> (string \<rightharpoonup> string option) \<Rightarrow> 'r ConfiguredExtension list \<Rightarrow>
     (string \<times> string option) list" where
  "batchOf svc c l = map (\<lambda>x. (id_ext x, the (c (getScriptURLFromExtensionManifest svc x)))) l"

text \<open>
  What holds of every state the engine reaches: the list let through last is the
  filtered list of the latest delivery, and a pending batch is the batch of that list.
\<close>

definition consistent :: "'r ExtensionsService \<Rightarrow> 'r EngineState \<Rightarrow> bool" where
  "consistent svc st =
     (memo_inv (getScriptURLForExtension svc) (cache st, invocations st) \<and>
      previous st =
        map_option (\<lambda>input. activatedAndEnabled (activatedExtensionIDs st) (snd input)) (latest st) \<and>
      (case pending st of
         None \<Rightarrow> True
       | Some (Inl e) \<Rightarrow> True
       | Some (Inr batch) \<Rightarrow>
           (case previous st of
              None \<Rightarrow> False
            | Some l \<Rightarrow> batch = batchOf svc (cache st) l \<and>
                        getScriptURLFromExtensionManifest svc ` set l \<subseteq> dom (cache st))))"

text \<open>
  An extension that the default filter excludes whatever the model is: no manifest,
  an error placeholder, or a manifest whose activation events are absent or empty.
\<close>

definition neverActivates :: "'r ConfiguredExtension \<Rightarrow> bool" where
  "neverActivates x =
     (case manifest x of
        NoManifest \<Rightarrow> True
      | ErrorLike err \<Rightarrow> True
      | ExtensionManifest activationEvents r \<Rightarrow>
          activationEvents = Absent \<or> activationEvents = Array [])"

text \<open>The visible documents of a model whose field is null or an array.\<close>

fun documentsOf :: "Model \<Rightarrow> TextDocumentItem list" where
  "documentsOf model =
     (case visibleTextDocuments model of Absent \<Rightarrow> [] | Array docs \<Rightarrow> docs | NotArray \<Rightarrow> [])"

text \<open>
  The lists leaving the activation stage as a function of the deliveries alone: the
  filter, the activated ids and the list let through last are all it depends on.
\<close>

fun stageLists ::
  "('r ConfiguredExtension list \<Rightarrow> Model \<Rightarrow> 'r ConfiguredExtension list) \<Rightarrow> string list \<Rightarrow>
     'r ConfiguredExtension list option \<Rightarrow> (Model \<times> 'r ConfiguredExtension list) list \<Rightarrow>
     'r ConfiguredExtension list list" where
  "stageLists f ids prev [] = []"
| "stageLists f ids prev ((model, xs) # rest) =
     (let ids1 = pushActivated ids (f xs model);
          l = activatedAndEnabled ids1 xs
      in (if prev = Some l then [] else [l]) @ stageLists f ids1 (Some l) rest)"

text \<open>
  The run in which the batch of every delivery settles before the next delivery
  arrives, and the runs in which every delivery is followed at once by the settling
  of its batch (a settling with nothing pending may occur anywhere).
\<close>

fun promptly :: "(Model \<times> 'r ConfiguredExtension list) list \<Rightarrow> 'r event list" where
  "promptly [] = []"
| "promptly (input # rest) = Input input # Settle # promptly rest"

fun prompt :: "'r event list \<Rightarrow> bool" where
  "prompt [] = True"
| "prompt (Settle # evs) = prompt evs"
| "prompt [Input input] = False"
| "prompt (Input input # Settle # evs) = prompt evs"
| "prompt (Input input # Input input' # evs) = False"

section \<open>Concrete inputs\<close>

text \<open>
  The scenario of the specification: a Go and a Python document, extension \<open>a\<close>
  activated by Go and \<open>b\<close> by Python; besides a wildcard extension, the descriptor of
  \<open>a\<close> after a failed manifest fetch, and an extension whose activation events are
  not an array. The remaining manifest field is the script URL.
\<close>

definition modelGo :: Model where
  "modelGo = \<lparr>visibleTextDocuments = Array [\<lparr>languageId = ''go''\<rparr>]\<rparr>"

definition modelPython :: Model where
  "modelPython = \<lparr>visibleTextDocuments = Array [\<lparr>languageId = ''python''\<rparr>]\<rparr>"

definition modelNone :: Model where
  "modelNone = \<lparr>visibleTextDocuments = Absent\<rparr>"

definition modelBroken :: Model where
  "modelBroken = \<lparr>visibleTextDocuments = NotArray\<rparr>"

definition extGo :: "string ConfiguredExtension" where
  "extGo = \<lparr>id_ext = ''a'', manifest = ExtensionManifest (Array [''onLanguage:go'']) ''u1''\<rparr>"

definition extPython :: "string ConfiguredExtension" where
  "extPython = \<lparr>id_ext = ''b'', manifest = ExtensionManifest (Array [''onLanguage:python'']) ''u2''\<rparr>"

definition extAll :: "string ConfiguredExtension" where
  "extAll = \<lparr>id_ext = ''w'', manifest = ExtensionManifest (Array [''*'']) ''u3''\<rparr>"

definition extGoFailed :: "string ConfiguredExtension" where
  "extGoFailed = \<lparr>id_ext = ''a'', manifest = ErrorLike ''fetch failed''\<rparr>"

definition extBroken :: "string ConfiguredExtension" where
  "extBroken = \<lparr>id_ext = ''c'', manifest = ExtensionManifest NotArray ''u4''\<rparr>"

fun urlOf :: "string ConfiguredExtension \<Rightarrow> string" where
  "urlOf x = (case manifest x of ExtensionManifest activationEvents url \<Rightarrow> url | _ \<Rightarrow> ''none'')"

text \<open>
  A host resolver that serves \<open>u1\<close> always, and rejects whatever else it is asked
  first (its invocation 0), though it would serve it later.
\<close>

definition hostResolver :: "nat \<Rightarrow> string \<Rightarrow> resolver_call" where
  "hostResolver n url =
     (if url = ''u1'' then Fulfilled (Some ''blob:u1'')
      else if n = 0 then Rejected ''offline''
      else Fulfilled (Some (''blob:'' @ url)))"

definition exampleService :: "string ExtensionsService" where
  "exampleService = defaultService hostResolver urlOf"

text \<open>The scenario: Go first, then Python, the second batch still pending.\<close>

definition runGoThenPython :: "string event list" where
  "runGoThenPython =
     [Input (modelGo, [extGo, extPython]), Settle, Input (modelPython, [extGo, extPython])]"



text \<open>
  Runs for the exclusion of extensions: the manifest of \<open>a\<close> is fetched and \<open>a\<close> is
  activated, then a later fetch fails; and a run in which the fetch never succeeds.
\<close>

definition runFetchFails :: "string event list" where
  "runFetchFails = [Input (modelGo, [extGo]), Settle, Input (modelGo, [extGoFailed])]"

definition runNeverFetched :: "string event list" where
  "runNeverFetched = [Input (modelGo, [extGoFailed, extPython]), Settle,
                      Input (modelPython, [extGoFailed, extPython]), Settle]"

text \<open>
  The same two deliveries with the first batch settling before the second delivery,
  and with the second delivery arriving while the first batch is pending.
\<close>

definition runSettled :: "string event list" where
  "runSettled = [Input (modelGo, [extGo, extPython]), Settle,
                 Input (modelPython, [extGo, extPython]), Settle]"

definition runSwitched :: "string event list" where
  "runSwitched = [Input (modelGo, [extGo, extPython]),
                  Input (modelPython, [extGo, extPython]), Settle]"

text \<open>A host resolver that answers null where \<open>hostResolver\<close> rejects.\<close>

definition hostResolverNull :: "nat \<Rightarrow> string \<Rightarrow> resolver_call" where
  "hostResolverNull n url =
     (if url = ''u1'' then Fulfilled (Some ''blob:u1'')
      else if n = 0 then Fulfilled None
      else Fulfilled (Some (''blob:'' @ url)))"

text \<open>
  A run in which \<open>a\<close> is activated and then disabled; and a run in which a wildcard
  extension is enabled and disabled again while its batch is pending.
\<close>

definition runReenable :: "string event list" where
  "runReenable = [Input (modelGo, [extGo, extPython]), Settle, Input (modelGo, [extPython]), Settle]"

definition runRepeat :: "string event list" where
  "runRepeat = [Input (modelGo, [extGo, extPython]), Settle,
                Input (modelGo, [extGo, extAll]),
                Input (modelNone, [extGo, extPython]), Settle]"





text \<open>
  The deliveries Python, then Go, with every batch settling before the next delivery
  (and settlings with nothing pending in between), and with the second delivery
  arriving while the first batch is pending.
\<close>

definition runPythonThenGo :: "string event list" where
  "runPythonThenGo = [Settle, Input (modelPython, [extGo, extPython]), Settle, Settle,
                      Input (modelGo, [extGo, extPython]), Settle]"

definition runPythonGoSwitched :: "string event list" where
  "runPythonGoSwitched = [Input (modelPython, [extGo, extPython]),
                          Input (modelGo, [extGo, extPython]), Settle]"

section \<open>Lemmas about the stages\<close>

lemma set_pushActivated: "set (pushActivated ids xs) = set ids \<union> id_ext ` set xs"
  by (induction xs arbitrary: ids) auto

lemma memoized_cases:
  assumes "memoizedGetScriptURLForExtension resolver url (c, calls) = (r, c', calls')"
  shows "(\<exists>v. c url = Some v \<and> r = Inr v \<and> c' = c \<and> calls' = calls) \<or>
         (c url = None \<and> calls' = calls @ [url] \<and>
            (if returns (resolver (length calls) url)
             then r = Inr (answer (resolver (length calls) url)) \<and>
                  c' = c(url \<mapsto> answer (resolver (length calls) url))
             else (\<exists>e. resolver (length calls) url = Throws e \<and> r = Inl e) \<and> c' = c))"
  using assms
  by (auto simp: memoizedGetScriptURLForExtension_def memoizeAsync_def fetchScriptURL_def
        returns_def answer_def split: option.splits sum.splits resolver_call.splits)

lemma memoized_inv:
  assumes m: "memoizedGetScriptURLForExtension resolver url (c, calls) = (r, c', calls')"
    and inv: "memo_inv resolver (c, calls)"
  shows "memo_inv resolver (c', calls')"
proof -
  from inv have a: "\<And>u v. c u = Some v \<Longrightarrow>
        \<exists>n<length calls. calls ! n = u \<and> returns (resolver n u) \<and> answer (resolver n u) = v"
    and b: "\<And>n. n < length calls \<Longrightarrow> returns (resolver n (calls ! n)) \<Longrightarrow>
        c (calls ! n) = Some (answer (resolver n (calls ! n)))"
    and d: "\<And>m n. m < length calls \<Longrightarrow> n < m \<Longrightarrow> calls ! n = calls ! m \<Longrightarrow>
        \<not> returns (resolver n (calls ! n))"
    by (simp_all add: memo_inv_def Let_def)
  from memoized_cases [OF m] show ?thesis
  proof
    assume "\<exists>v. c url = Some v \<and> r = Inr v \<and> c' = c \<and> calls' = calls"
    with inv show ?thesis by auto
  next
    assume miss: "c url = None \<and> calls' = calls @ [url] \<and>
            (if returns (resolver (length calls) url)
             then r = Inr (answer (resolver (length calls) url)) \<and>
                  c' = c(url \<mapsto> answer (resolver (length calls) url))
             else (\<exists>e. resolver (length calls) url = Throws e \<and> r = Inl e) \<and> c' = c)"
    then have none: "c url = None" and calls': "calls' = calls @ [url]" by simp_all
    have old: "c (calls ! n) \<noteq> None \<Longrightarrow> calls ! n \<noteq> url" for n using none by auto
    have threw: "\<not> returns (resolver n (calls ! n))" if "n < length calls" "calls ! n = url" for n
      using b [OF that(1)] that(2) none by auto
    have c'_old: "c' u = c u" if "u \<noteq> url" for u using miss that by (auto split: if_splits)
    have A: "\<exists>n<length calls'. calls' ! n = u \<and> returns (resolver n u) \<and> answer (resolver n u) = v"
      if h: "c' u = Some v" for u v
    proof (cases "u = url")
      case True
      with h miss none have "returns (resolver (length calls) url)"
        and "v = answer (resolver (length calls) url)" by (auto split: if_splits)
      with True show ?thesis unfolding calls' by (intro exI [of _ "length calls"]) simp
    next
      case False
      with h c'_old have "c u = Some v" by simp
      from a [OF this] obtain n where "n < length calls" "calls ! n = u"
        "returns (resolver n u)" "answer (resolver n u) = v" by blast
      then show ?thesis unfolding calls' by (intro exI [of _ n]) (simp add: nth_append)
    qed
    have B: "c' (calls' ! n) = Some (answer (resolver n (calls' ! n)))"
      if "n < length calls'" "returns (resolver n (calls' ! n))" for n
    proof (cases "n < length calls")
      case True
      with that have r: "returns (resolver n (calls ! n))" unfolding calls' by (simp add: nth_append)
      from b [OF True r] have cn: "c (calls ! n) = Some (answer (resolver n (calls ! n)))" .
      then have "calls ! n \<noteq> url" using none by auto
      with cn c'_old True show ?thesis unfolding calls' by (simp add: nth_append)
    next
      case False
      with that(1) have n: "n = length calls" unfolding calls' by simp
      with that(2) have "returns (resolver (length calls) url)" unfolding calls' by simp
      with miss n show ?thesis unfolding calls' by simp
    qed
    have D: "\<not> returns (resolver n (calls' ! n))"
      if "m < length calls'" "n < m" "calls' ! n = calls' ! m" for m n
    proof (cases "m < length calls")
      case True
      with that d [OF True that(2)] show ?thesis unfolding calls' by (simp add: nth_append)
    next
      case False
      with that(1) have m: "m = length calls" unfolding calls' by simp
      with that have "n < length calls" "calls ! n = url" unfolding calls' by (simp_all add: nth_append)
      from threw [OF this] this show ?thesis unfolding calls' by (simp add: nth_append)
    qed
    from A B D show ?thesis by (simp add: memo_inv_def Let_def)
  qed
qed

lemma memoized_grows:
  assumes "memoizedGetScriptURLForExtension resolver url (c, calls) = (r, c', calls')"
  shows "c \<subseteq>\<^sub>m c' \<and> prefix calls calls' \<and> (\<forall>v. r = Inr v \<longrightarrow> c' url = Some v)"
  using memoized_cases [OF assms] by (auto simp: map_le_def split: if_splits)

lemma resolveAll_Cons:
  assumes "resolveAll svc (x # xs) (c, calls) = (batch, c', calls')"
  obtains (throws) e where
      "memoizedGetScriptURLForExtension (getScriptURLForExtension svc)
         (getScriptURLFromExtensionManifest svc x) (c, calls) = (Inl e, c', calls')"
      "batch = Inl e"
    | (later) v c1 calls1 e where
      "memoizedGetScriptURLForExtension (getScriptURLForExtension svc)
         (getScriptURLFromExtensionManifest svc x) (c, calls) = (Inr v, c1, calls1)"
      "resolveAll svc xs (c1, calls1) = (Inl e, c', calls')"
      "batch = Inl e"
    | (resolved) v c1 calls1 rest where
      "memoizedGetScriptURLForExtension (getScriptURLForExtension svc)
         (getScriptURLFromExtensionManifest svc x) (c, calls) = (Inr v, c1, calls1)"
      "resolveAll svc xs (c1, calls1) = (Inr rest, c', calls')"
      "batch = Inr ((id_ext x, v) # rest)"
  using assms by (auto split: prod.splits sum.splits)

lemma resolveAll_grows:
  "resolveAll svc xs (c, calls) = (batch, c', calls') \<Longrightarrow>
     c \<subseteq>\<^sub>m c' \<and> prefix calls calls'"
proof (induction xs arbitrary: c calls batch)
  case Nil
  then show ?case by simp
next
  case (Cons x xs)
  from Cons.prems show ?case
  proof (cases rule: resolveAll_Cons)
    case (throws e)
    from memoized_grows [OF throws(1)] show ?thesis by simp
  next
    case (later v c1 calls1 e)
    from memoized_grows [OF later(1)] Cons.IH [OF later(2)] show ?thesis
      by (meson map_le_trans prefix_order.trans)
  next
    case (resolved v c1 calls1 rest)
    from memoized_grows [OF resolved(1)] Cons.IH [OF resolved(2)] show ?thesis
      by (meson map_le_trans prefix_order.trans)
  qed
qed

lemma resolveAll_inv:
  "resolveAll svc xs (c, calls) = (batch, c', calls') \<Longrightarrow>
     memo_inv (getScriptURLForExtension svc) (c, calls) \<Longrightarrow>
     memo_inv (getScriptURLForExtension svc) (c', calls')"
proof (induction xs arbitrary: c calls batch)
  case Nil
  then show ?case by simp
next
  case (Cons x xs)
  from Cons.prems(1) show ?case
  proof (cases rule: resolveAll_Cons)
    case (throws e)
    from memoized_inv [OF throws(1) Cons.prems(2)] show ?thesis .
  next
    case (later v c1 calls1 e)
    from Cons.IH [OF later(2) memoized_inv [OF later(1) Cons.prems(2)]] show ?thesis .
  next
    case (resolved v c1 calls1 rest)
    from Cons.IH [OF resolved(2) memoized_inv [OF resolved(1) Cons.prems(2)]] show ?thesis .
  qed
qed

lemma resolveAll_batch:
  "resolveAll svc xs (c, calls) = (Inr batch, c', calls') \<Longrightarrow>
     batch = map (\<lambda>x. (id_ext x, the (c' (getScriptURLFromExtensionManifest svc x)))) xs \<and>
     getScriptURLFromExtensionManifest svc ` set xs \<subseteq> dom c'"
proof (induction xs arbitrary: c calls batch)
  case Nil
  then show ?case by simp
next
  case (Cons x xs)
  let ?u = "getScriptURLFromExtensionManifest svc x"
  from Cons.prems show ?case
  proof (cases rule: resolveAll_Cons)
    case (throws e)
    then show ?thesis by simp
  next
    case (later v c1 calls1 e)
    then show ?thesis by simp
  next
    case (resolved v c1 calls1 rest)
    from memoized_grows [OF resolved(1)] have "c1 ?u = Some v" by simp
    moreover from resolveAll_grows [OF resolved(2)] have "c1 \<subseteq>\<^sub>m c'" by simp
    ultimately have "c' ?u = Some v" by (auto simp: map_le_def dom_def)
    with Cons.IH [OF resolved(2)] resolved(3) show ?thesis by (auto simp: domIff)
  qed
qed

lemma resolveAll_returns:
  assumes "\<forall>n url. returns (getScriptURLForExtension svc n url)"
  shows "\<exists>batch. fst (resolveAll svc xs memo) = Inr batch"
proof (induction xs arbitrary: memo)
  case Nil
  show ?case by simp
next
  case (Cons x xs)
  obtain c calls where memo: "memo = (c, calls)" by (cases memo)
  obtain r c1 calls1 where m: "memoizedGetScriptURLForExtension (getScriptURLForExtension svc)
         (getScriptURLFromExtensionManifest svc x) (c, calls) = (r, c1, calls1)"
    by (metis prod_cases3)
  from memoized_cases [OF m] assms obtain v where r: "r = Inr v" by auto
  from Cons [of "(c1, calls1)"] obtain rest where "fst (resolveAll svc xs (c1, calls1)) = Inr rest"
    by blast
  with m r show ?case unfolding memo by (auto split: prod.splits sum.splits)
qed

lemma set_executable:
  "\<lparr>id_exe = i, scriptURL = u\<rparr> \<in> set (executable batch) \<longleftrightarrow> (i, Some u) \<in> set batch"
  by (induction batch rule: executable.induct) auto

lemma activationStage_fields:
  assumes "activationStage svc st (m, xs) = (st1, r)"
  shows "activatedExtensionIDs st1 =
           pushActivated (activatedExtensionIDs st) (extensionActivationFilter svc xs m)"
    and "latest st1 = Some (m, xs)"
    and "previous st1 = Some (activatedAndEnabled (activatedExtensionIDs st1) xs)"
    and "cache st1 = cache st"
    and "invocations st1 = invocations st"
    and "pending st1 = pending st"
    and "r = (if previous st = Some (activatedAndEnabled (activatedExtensionIDs st1) xs)
              then None else Some (activatedAndEnabled (activatedExtensionIDs st1) xs))"
  using assms
  by (auto simp: activationStage_def Let_def isEqual_def split: option.splits if_splits)

lemma consistent_initial: "consistent svc initial"
  by (simp add: consistent_def initial_def memo_inv_def)

lemma step_Settle:
  "step svc st Settle =
     (case pending st of None \<Rightarrow> (st, None)
      | Some (Inl e) \<Rightarrow> (st\<lparr>pending := None\<rparr>, None)
      | Some (Inr batch) \<Rightarrow> (st\<lparr>pending := None\<rparr>, Some (executable batch)))"
  by (simp add: step_def)

lemma step_Input_suppressed:
  assumes "activationStage svc st input = (st1, None)"
  shows "step svc st (Input input) = (st1, None)"
  using assms by (simp add: step_def)

lemma step_Input_passed:
  assumes "activationStage svc st input = (st1, Some l)"
    and "resolveAll svc l (cache st1, invocations st1) = (batch, c, calls)"
  shows "step svc st (Input input) =
           (st1\<lparr>cache := c, invocations := calls, pending := Some batch\<rparr>, None)"
  using assms by (simp add: step_def)

lemma consistent_step:
  assumes "consistent svc st"
  shows "consistent svc (fst (step svc st ev))"
proof (cases ev)
  case Settle
  with assms show ?thesis
    by (auto simp: step_Settle consistent_def split: option.splits sum.splits)
next
  case (Input input)
  obtain m xs where input: "input = (m, xs)" by (cases input)
  obtain st1 r where a: "activationStage svc st (m, xs) = (st1, r)" by (cases "activationStage svc st (m, xs)")
  note f = activationStage_fields [OF a]
  show ?thesis
  proof (cases r)
    case None
    with f(7) have same: "previous st = previous st1" using f(3) by (auto split: if_splits)
    from a None have s: "step svc st (Input input) = (st1, None)"
      unfolding input by (intro step_Input_suppressed) simp
    from assms have p: "case pending st of None \<Rightarrow> True
       | Some (Inl e) \<Rightarrow> True
       | Some (Inr batch) \<Rightarrow>
           (case previous st of None \<Rightarrow> False
            | Some l \<Rightarrow> batch = batchOf svc (cache st) l \<and>
                        getScriptURLFromExtensionManifest svc ` set l \<subseteq> dom (cache st))"
      and mo: "memo_inv (getScriptURLForExtension svc) (cache st, invocations st)"
      by (simp_all add: consistent_def)
    have "fst (step svc st ev) = st1" unfolding s Input by simp
    moreover have "consistent svc st1"
      unfolding consistent_def f(4) f(5) f(6) same [symmetric]
      using mo p f(3) f(2) by (simp add: same)
    ultimately show ?thesis by simp
  next
    case (Some l)
    with f(7) have l: "l = activatedAndEnabled (activatedExtensionIDs st1) xs"
      by (auto split: if_splits)
    obtain batch c calls where r: "resolveAll svc l (cache st1, invocations st1) = (batch, c, calls)"
      by (metis prod_cases3)
    from a Some r have s: "step svc st (Input input) =
           (st1\<lparr>cache := c, invocations := calls, pending := Some batch\<rparr>, None)"
      unfolding input by (intro step_Input_passed) simp_all
    from assms have "memo_inv (getScriptURLForExtension svc) (cache st1, invocations st1)"
      by (simp add: consistent_def f)
    with r have ok: "memo_inv (getScriptURLForExtension svc) (c, calls)" by (rule resolveAll_inv)
    show ?thesis
    proof (cases batch)
      case (Inl e)
      with ok l f show ?thesis
        unfolding s Input by (simp add: consistent_def)
    next
      case (Inr b)
      from resolveAll_batch [OF r [unfolded Inr]] have "b = batchOf svc c l"
        and "getScriptURLFromExtensionManifest svc ` set l \<subseteq> dom c"
        by (simp_all add: batchOf_def)
      with ok l f Inr show ?thesis
        unfolding s Input by (simp add: consistent_def)
    qed
  qed
qed

lemma consistent_exec: "consistent svc st \<Longrightarrow> consistent svc (exec svc st evs)"
  by (induction evs arbitrary: st) (simp_all add: consistent_step)

lemma emission_is_settle:
  assumes "snd (step svc st ev) = Some out"
  obtains batch where "ev = Settle" "pending st = Some (Inr batch)" "out = executable batch"
    "fst (step svc st ev) = st\<lparr>pending := None\<rparr>"
  using assms
  by (cases ev) (auto simp: step_def Let_def split: option.splits prod.splits sum.splits)

lemma emitted_batch:
  assumes c: "consistent svc st" and e: "snd (step svc st ev) = Some out"
  obtains model enabledExtensions where
    "latest st = Some (model, enabledExtensions)"
    "out = executable (batchOf svc (cache st)
             (activatedAndEnabled (activatedExtensionIDs st) enabledExtensions))"
    "getScriptURLFromExtensionManifest svc `
       set (activatedAndEnabled (activatedExtensionIDs st) enabledExtensions) \<subseteq> dom (cache st)"
    "fst (step svc st ev) = st\<lparr>pending := None\<rparr>"
proof -
  from e obtain batch where ev: "ev = Settle" and p: "pending st = Some (Inr batch)"
    and out: "out = executable batch" and st': "fst (step svc st ev) = st\<lparr>pending := None\<rparr>"
    by (rule emission_is_settle)
  from c p obtain l where l: "previous st = Some l" and b: "batch = batchOf svc (cache st) l"
    and d: "getScriptURLFromExtensionManifest svc ` set l \<subseteq> dom (cache st)"
    by (auto simp: consistent_def split: option.splits)
  from c l have "map_option (\<lambda>input. activatedAndEnabled (activatedExtensionIDs st) (snd input))
      (latest st) = Some l"
    by (simp add: consistent_def)
  then obtain input where i: "latest st = Some input"
    and l': "l = activatedAndEnabled (activatedExtensionIDs st) (snd input)"
    by (cases "latest st") auto
  obtain model enabledExtensions where "input = (model, enabledExtensions)" by (cases input)
  with i l' b d out st' that show ?thesis by simp
qed

lemma batchOf_member:
  assumes "getScriptURLFromExtensionManifest svc ` set l \<subseteq> dom c"
  shows "(i, Some u) \<in> set (batchOf svc c l) \<longleftrightarrow>
           (\<exists>x\<in>set l. id_ext x = i \<and> c (getScriptURLFromExtensionManifest svc x) = Some (Some u))"
    (is "?lhs \<longleftrightarrow> ?rhs")
proof
  assume ?lhs
  then obtain x where x: "x \<in> set l" "id_ext x = i"
    and u: "the (c (getScriptURLFromExtensionManifest svc x)) = Some u"
    unfolding batchOf_def by auto
  from x(1) assms obtain y where "c (getScriptURLFromExtensionManifest svc x) = Some y" by blast
  with u x show ?rhs by auto
next
  assume ?rhs
  then obtain x where "x \<in> set l" "id_ext x = i"
    "c (getScriptURLFromExtensionManifest svc x) = Some (Some u)" by blast
  then show ?lhs unfolding batchOf_def by force
qed

lemma executable_batchOf:
  assumes "getScriptURLFromExtensionManifest svc ` set l \<subseteq> dom c"
  shows "list_all2
           (\<lambda>y x. id_exe y = id_ext x \<and>
                  c (getScriptURLFromExtensionManifest svc x) = Some (Some (scriptURL y)))
           (executable (batchOf svc c l))
           (filter (\<lambda>x. c (getScriptURLFromExtensionManifest svc x) \<noteq> Some None) l)"
  using assms
proof (induction l)
  case Nil
  then show ?case by (simp add: batchOf_def)
next
  case (Cons x l)
  then obtain y where y: "c (getScriptURLFromExtensionManifest svc x) = Some y" by auto
  from Cons have IH: "list_all2
           (\<lambda>y x. id_exe y = id_ext x \<and>
                  c (getScriptURLFromExtensionManifest svc x) = Some (Some (scriptURL y)))
           (executable (batchOf svc c l))
           (filter (\<lambda>x. c (getScriptURLFromExtensionManifest svc x) \<noteq> Some None) l)" by simp
  show ?case
  proof (cases y)
    case None
    with y IH show ?thesis by (simp add: batchOf_def)
  next
    case (Some u)
    with y IH show ?thesis by (simp add: batchOf_def)
  qed
qed

lemma step_Input_fields:
  "activatedExtensionIDs (fst (step svc st (Input (model, xs)))) =
     pushActivated (activatedExtensionIDs st) (extensionActivationFilter svc xs model)"
  "latest (fst (step svc st (Input (model, xs)))) = Some (model, xs)"
  "previous (fst (step svc st (Input (model, xs)))) =
     Some (activatedAndEnabled
             (pushActivated (activatedExtensionIDs st) (extensionActivationFilter svc xs model)) xs)"
proof -
  obtain st1 r where a: "activationStage svc st (model, xs) = (st1, r)"
    by (cases "activationStage svc st (model, xs)")
  note f = activationStage_fields [OF a]
  have "activatedExtensionIDs (fst (step svc st (Input (model, xs)))) = activatedExtensionIDs st1
      \<and> latest (fst (step svc st (Input (model, xs)))) = latest st1
      \<and> previous (fst (step svc st (Input (model, xs)))) = previous st1"
    using a by (cases r) (simp_all add: step_def split: prod.splits)
  with f show
    "activatedExtensionIDs (fst (step svc st (Input (model, xs)))) =
       pushActivated (activatedExtensionIDs st) (extensionActivationFilter svc xs model)"
    "latest (fst (step svc st (Input (model, xs)))) = Some (model, xs)"
    "previous (fst (step svc st (Input (model, xs)))) =
       Some (activatedAndEnabled
             (pushActivated (activatedExtensionIDs st) (extensionActivationFilter svc xs model)) xs)"
    by simp_all
qed

lemma step_Settle_fields:
  "activatedExtensionIDs (fst (step svc st Settle)) = activatedExtensionIDs st"
  "latest (fst (step svc st Settle)) = latest st"
  "previous (fst (step svc st Settle)) = previous st"
  "cache (fst (step svc st Settle)) = cache st"
  "invocations (fst (step svc st Settle)) = invocations st"
  by (simp_all add: step_Settle split: option.splits sum.splits)

lemma step_activated_mono:
  "set (activatedExtensionIDs st) \<subseteq> set (activatedExtensionIDs (fst (step svc st ev)))"
proof (cases ev)
  case (Input input)
  then show ?thesis
    by (cases input) (simp add: step_Input_fields set_pushActivated)
next
  case Settle
  then show ?thesis by (simp add: step_Settle_fields)
qed

lemma exec_activated_mono:
  "set (activatedExtensionIDs st) \<subseteq> set (activatedExtensionIDs (exec svc st evs))"
proof (induction evs arbitrary: st)
  case Nil
  show ?case by simp
next
  case (Cons ev evs)
  from step_activated_mono Cons [of "fst (step svc st ev)"] show ?case
    by (simp only: exec.simps) (rule subset_trans)
qed

lemma exec_append: "exec svc st (evs1 @ evs2) = exec svc (exec svc st evs1) evs2"
  by (induction evs1 arbitrary: st) simp_all

lemma matched_is_activated:
  assumes "e \<in> set (extensionActivationFilter svc xs model)"
  shows "id_ext e \<in> set (activatedExtensionIDs
           (exec svc st0 (evs1 @ Input (model, xs) # evs2)))"
proof -
  from assms have "id_ext e \<in> set (activatedExtensionIDs (fst (step svc (exec svc st0 evs1) (Input (model, xs)))))"
    by (simp add: step_Input_fields set_pushActivated)
  with exec_activated_mono show ?thesis
    unfolding exec_append exec.simps by blast
qed

lemmas example_defs = exampleService_def defaultService_def hostResolver_def modelGo_def
  modelPython_def modelNone_def modelBroken_def extGo_def extPython_def extAll_def
  extGoFailed_def extBroken_def

lemmas engine_defs = step_def activationStage_def initial_def Let_def activatedAndEnabled_def
  extensionsWithMatchedActivationEvent_def activationCallback_def eventMatches_def isEqual_def
  memoizedGetScriptURLForExtension_def memoizeAsync_def fetchScriptURL_def

lemma runGoThenPython_settles:
  "snd (step exampleService (exec exampleService initial runGoThenPython) Settle) =
     Some [\<lparr>id_exe = ''a'', scriptURL = ''blob:u1''\<rparr>, \<lparr>id_exe = ''b'', scriptURL = ''blob:u2''\<rparr>]"
  by (simp add: runGoThenPython_def example_defs engine_defs)

section \<open>The claims\<close>

subsection \<open>C1: what an emitted list contains\<close>

text \<open>
  C1. Whenever the pipeline emits a list (a step that yields \<open>Some out\<close>, from any
  state reached from the initial one), an executable extension with id \<open>i\<close> and script
  URL \<open>u\<close> is in the list if and only if some extension \<open>e\<close> of the enabled extensions
  delivered last has id \<open>i\<close>, \<open>i\<close> is among the activated ids, and the URL of \<open>e\<close>
  resolved to the non-null string \<open>u\<close>.
\<close>

theorem activeExtensions_output_iff:
  assumes "st = exec svc initial evs" and "snd (step svc st ev) = Some out"
  shows "\<exists>model enabledExtensions.
           latest st = Some (model, enabledExtensions) \<and>
           (\<forall>i u. \<lparr>id_exe = i, scriptURL = u\<rparr> \<in> set out \<longleftrightarrow>
              (\<exists>e\<in>set enabledExtensions.
                 id_ext e = i \<and> i \<in> set (activatedExtensionIDs st) \<and>
                 cache st (getScriptURLFromExtensionManifest svc e) = Some (Some u)))"
proof -
  from assms(1) have "consistent svc st" by (simp add: consistent_exec consistent_initial)
  from this assms(2) obtain model enabledExtensions where
    l: "latest st = Some (model, enabledExtensions)"
    and out: "out = executable (batchOf svc (cache st)
             (activatedAndEnabled (activatedExtensionIDs st) enabledExtensions))"
    and d: "getScriptURLFromExtensionManifest svc `
       set (activatedAndEnabled (activatedExtensionIDs st) enabledExtensions) \<subseteq> dom (cache st)"
    by (rule emitted_batch)
  have "\<lparr>id_exe = i, scriptURL = u\<rparr> \<in> set out \<longleftrightarrow>
              (\<exists>e\<in>set enabledExtensions.
                 id_ext e = i \<and> i \<in> set (activatedExtensionIDs st) \<and>
                 cache st (getScriptURLFromExtensionManifest svc e) = Some (Some u))" for i u
    unfolding out set_executable batchOf_member [OF d]
    by (auto simp: activatedAndEnabled_def)
  with l show ?thesis by blast
qed

theorem activeExtensions_output_iff_witness:
  "snd (step exampleService (exec exampleService initial runGoThenPython) Settle) =
     Some [\<lparr>id_exe = ''a'', scriptURL = ''blob:u1''\<rparr>, \<lparr>id_exe = ''b'', scriptURL = ''blob:u2''\<rparr>] \<and>
   (\<exists>model enabledExtensions.
      latest (exec exampleService initial runGoThenPython) = Some (model, enabledExtensions) \<and>
      (\<forall>i u. \<lparr>id_exe = i, scriptURL = u\<rparr> \<in>
                set [\<lparr>id_exe = ''a'', scriptURL = ''blob:u1''\<rparr>,
                     \<lparr>id_exe = ''b'', scriptURL = ''blob:u2''\<rparr>] \<longleftrightarrow>
         (\<exists>e\<in>set enabledExtensions.
            id_ext e = i \<and>
            i \<in> set (activatedExtensionIDs (exec exampleService initial runGoThenPython)) \<and>
            cache (exec exampleService initial runGoThenPython)
              (getScriptURLFromExtensionManifest exampleService e) = Some (Some u))))"
  using activeExtensions_output_iff [OF refl runGoThenPython_settles] runGoThenPython_settles
  by (intro conjI)

subsection \<open>C10: the emitted list follows the order of the enabled extensions\<close>

text \<open>
  C10. Every emitted list is, entry by entry, the image of a sublist \<open>l\<close> of the enabled
  extensions delivered last, in their order: each entry carries the id of its extension
  and the string its URL resolved to. So the ids of the emitted list are a subsequence
  of the ids of the enabled list (not of the activated ids), one entry per enabled
  entry at most.
\<close>

theorem output_sublist_of_enabled:
  assumes "st = exec svc initial evs" and "snd (step svc st ev) = Some out"
  shows "\<exists>model enabledExtensions l.
           latest st = Some (model, enabledExtensions) \<and>
           subseq l enabledExtensions \<and>
           list_all2
             (\<lambda>y x. id_exe y = id_ext x \<and>
                    cache st (getScriptURLFromExtensionManifest svc x) = Some (Some (scriptURL y)))
             out l \<and>
           subseq (map id_exe out) (map id_ext enabledExtensions)"
proof -
  from assms(1) have "consistent svc st" by (simp add: consistent_exec consistent_initial)
  from this assms(2) obtain model enabledExtensions where
    l: "latest st = Some (model, enabledExtensions)"
    and out: "out = executable (batchOf svc (cache st)
             (activatedAndEnabled (activatedExtensionIDs st) enabledExtensions))"
    and d: "getScriptURLFromExtensionManifest svc `
       set (activatedAndEnabled (activatedExtensionIDs st) enabledExtensions) \<subseteq> dom (cache st)"
    by (rule emitted_batch)
  let ?l = "filter (\<lambda>x. cache st (getScriptURLFromExtensionManifest svc x) \<noteq> Some None)
              (activatedAndEnabled (activatedExtensionIDs st) enabledExtensions)"
  have sub: "subseq ?l enabledExtensions"
    unfolding activatedAndEnabled_def by (simp only: filter_filter subseq_filter_left)
  have all2: "list_all2
             (\<lambda>y x. id_exe y = id_ext x \<and>
                    cache st (getScriptURLFromExtensionManifest svc x) = Some (Some (scriptURL y)))
             out ?l"
    unfolding out using d by (rule executable_batchOf)
  then have "list_all2 (\<lambda>y x. id_exe y = id_ext x) out ?l"
    by (rule list_all2_mono) simp
  then have "map id_exe out = map id_ext ?l"
    by (induction rule: list_all2_induct) simp_all
  with sub have "subseq (map id_exe out) (map id_ext enabledExtensions)"
    by (simp add: subseq_map)
  with l sub all2 show ?thesis by blast
qed

theorem output_sublist_of_enabled_witness:
  "snd (step exampleService (exec exampleService initial runGoThenPython) Settle) =
     Some [\<lparr>id_exe = ''a'', scriptURL = ''blob:u1''\<rparr>, \<lparr>id_exe = ''b'', scriptURL = ''blob:u2''\<rparr>] \<and>
   (\<exists>model enabledExtensions l.
      latest (exec exampleService initial runGoThenPython) = Some (model, enabledExtensions) \<and>
      subseq l enabledExtensions \<and>
      list_all2
        (\<lambda>y x. id_exe y = id_ext x \<and>
               cache (exec exampleService initial runGoThenPython)
                 (getScriptURLFromExtensionManifest exampleService x) = Some (Some (scriptURL y)))
        [\<lparr>id_exe = ''a'', scriptURL = ''blob:u1''\<rparr>, \<lparr>id_exe = ''b'', scriptURL = ''blob:u2''\<rparr>] l \<and>
      subseq (map id_exe [\<lparr>id_exe = ''a'', scriptURL = ''blob:u1''\<rparr>,
                          \<lparr>id_exe = ''b'', scriptURL = ''blob:u2''\<rparr>])
        (map id_ext enabledExtensions))"
  using output_sublist_of_enabled [OF refl runGoThenPython_settles] runGoThenPython_settles
  by (intro conjI)

lemma emitted_contains:
  assumes c: "consistent svc st" and l: "latest st = Some (model, ys)"
    and e: "e' \<in> set ys" and a: "id_ext e' \<in> set (activatedExtensionIDs st)"
    and out: "snd (step svc st ev) = Some out"
    and u: "cache st (getScriptURLFromExtensionManifest svc e') = Some (Some u)"
  shows "\<lparr>id_exe = id_ext e', scriptURL = u\<rparr> \<in> set out"
proof -
  from c out obtain model' enabledExtensions where
    l': "latest st = Some (model', enabledExtensions)"
    and o: "out = executable (batchOf svc (cache st)
             (activatedAndEnabled (activatedExtensionIDs st) enabledExtensions))"
    and d: "getScriptURLFromExtensionManifest svc `
       set (activatedAndEnabled (activatedExtensionIDs st) enabledExtensions) \<subseteq> dom (cache st)"
    by (rule emitted_batch)
  from l l' have ys: "enabledExtensions = ys" by simp
  from e a have "e' \<in> set (activatedAndEnabled (activatedExtensionIDs st) ys)"
    by (simp add: activatedAndEnabled_def)
  with u show ?thesis
    unfolding o [unfolded ys] set_executable batchOf_member [OF d [unfolded ys]] by blast
qed

subsection \<open>C2: the activated ids only grow\<close>

text \<open>
  C2. No step removes an id from \<open>activatedExtensionIDs\<close>. Consequently, once the
  activation filter has returned \<open>e\<close> on some delivery, the id of \<open>e\<close> stays activated
  through all later events, and on every later delivery that enables an extension
  \<open>e'\<close> with that id, \<open>e'\<close> is in the list of activated and enabled extensions that
  the activation stage holds as its output (the list \<^verbatim>\<open>distinctUntilChanged\<close> let
  through last, which is the list computed on this delivery), whatever the documents
  of that delivery are; and a list emitted at that point has an entry for \<open>e'\<close> when
  its URL resolved to a string.
\<close>

theorem activated_ids_only_grow:
  assumes "e \<in> set (extensionActivationFilter svc xs model)"
    and "st = exec svc initial (evs1 @ Input (model, xs) # evs2)"
    and "e' \<in> set ys" and "id_ext e' = id_ext e"
    and "st' = fst (step svc st (Input (model', ys)))"
  shows "set (activatedExtensionIDs st0) \<subseteq> set (activatedExtensionIDs (fst (step svc st0 ev))) \<and>
         id_ext e \<in> set (activatedExtensionIDs st) \<and>
         previous st' = Some (activatedAndEnabled (activatedExtensionIDs st') ys) \<and>
         e' \<in> set (activatedAndEnabled (activatedExtensionIDs st') ys) \<and>
         (\<forall>out u. snd (step svc st' Settle) = Some out \<and>
                  cache st' (getScriptURLFromExtensionManifest svc e') = Some (Some u) \<longrightarrow>
                  \<lparr>id_exe = id_ext e, scriptURL = u\<rparr> \<in> set out)"
proof -
  from assms(1) have a: "id_ext e \<in> set (activatedExtensionIDs st)"
    unfolding assms(2) by (rule matched_is_activated)
  with step_activated_mono have a': "id_ext e \<in> set (activatedExtensionIDs st')"
    unfolding assms(5) by blast
  with assms(3,4) have m: "e' \<in> set (activatedAndEnabled (activatedExtensionIDs st') ys)"
    by (simp add: activatedAndEnabled_def)
  have p: "previous st' = Some (activatedAndEnabled (activatedExtensionIDs st') ys)"
    and l: "latest st' = Some (model', ys)"
    unfolding assms(5) by (simp_all add: step_Input_fields)
  have c: "consistent svc st'"
    unfolding assms(5) assms(2) by (intro consistent_step consistent_exec consistent_initial)
  have "\<lparr>id_exe = id_ext e, scriptURL = u\<rparr> \<in> set out"
    if "snd (step svc st' Settle) = Some out"
      and "cache st' (getScriptURLFromExtensionManifest svc e') = Some (Some u)" for out u
    using emitted_contains [OF c l assms(3) _ that] a' assms(4) by simp
  with a m p step_activated_mono show ?thesis by blast
qed

lemma runGoThenPython_cache:
  "cache (exec exampleService initial runGoThenPython)
     (getScriptURLFromExtensionManifest exampleService extGo) = Some (Some ''blob:u1'')"
  by (simp add: runGoThenPython_def example_defs engine_defs)

theorem activated_ids_only_grow_witness:
  "extGo \<in> set (extensionActivationFilter exampleService [extGo, extPython] modelGo) \<and>
   extGo \<notin> set (extensionActivationFilter exampleService [extGo, extPython] modelPython) \<and>
   set (activatedExtensionIDs (initial :: string EngineState)) \<subseteq>
     set (activatedExtensionIDs (fst (step exampleService initial Settle))) \<and>
   id_ext extGo \<in> set (activatedExtensionIDs
     (exec exampleService initial [Input (modelGo, [extGo, extPython]), Settle])) \<and>
   previous (exec exampleService initial runGoThenPython) =
     Some (activatedAndEnabled
             (activatedExtensionIDs (exec exampleService initial runGoThenPython))
             [extGo, extPython]) \<and>
   extGo \<in> set (activatedAndEnabled
             (activatedExtensionIDs (exec exampleService initial runGoThenPython))
             [extGo, extPython]) \<and>
   snd (step exampleService (exec exampleService initial runGoThenPython) Settle) =
     Some [\<lparr>id_exe = ''a'', scriptURL = ''blob:u1''\<rparr>, \<lparr>id_exe = ''b'', scriptURL = ''blob:u2''\<rparr>] \<and>
   \<lparr>id_exe = id_ext extGo, scriptURL = ''blob:u1''\<rparr> \<in>
     set [\<lparr>id_exe = ''a'', scriptURL = ''blob:u1''\<rparr>, \<lparr>id_exe = ''b'', scriptURL = ''blob:u2''\<rparr>]"
proof -
  have m: "extGo \<in> set (extensionActivationFilter exampleService [extGo, extPython] modelGo)"
    by (simp add: example_defs engine_defs)
  have n: "extGo \<notin> set (extensionActivationFilter exampleService [extGo, extPython] modelPython)"
    by (simp add: example_defs engine_defs)
  have e: "extGo \<in> set [extGo, extPython]" by simp
  have r: "exec exampleService initial ([] @ Input (modelGo, [extGo, extPython]) # [Settle]) =
           exec exampleService initial [Input (modelGo, [extGo, extPython]), Settle]"
    by simp
  have s: "exec exampleService initial runGoThenPython =
           fst (step exampleService
                  (exec exampleService initial ([] @ Input (modelGo, [extGo, extPython]) # [Settle]))
                  (Input (modelPython, [extGo, extPython])))"
    by (simp add: runGoThenPython_def)
  note t = activated_ids_only_grow [where svc = exampleService and e = extGo and e' = extGo
      and xs = "[extGo, extPython]" and ys = "[extGo, extPython]" and model = modelGo
      and model' = modelPython and ?evs1.0 = "[]" and ?evs2.0 = "[Settle]" and ?st0.0 = initial
      and ev = Settle, OF m refl e refl s]
  from m n t runGoThenPython_settles runGoThenPython_cache show ?thesis
    unfolding r by blast
qed

lemma exec_no_inputs:
  assumes "inputsOf evs = []"
  shows "activatedExtensionIDs (exec svc st evs) = activatedExtensionIDs st \<and>
         latest (exec svc st evs) = latest st \<and> previous (exec svc st evs) = previous st"
  using assms
proof (induction evs arbitrary: st)
  case Nil
  show ?case by simp
next
  case (Cons ev evs)
  then show ?case by (cases ev) (simp_all add: step_Settle_fields)
qed

lemma activationStage_result:
  "snd (activationStage svc st (model, xs)) =
     (let l = activatedAndEnabled
                (pushActivated (activatedExtensionIDs st) (extensionActivationFilter svc xs model)) xs
      in if previous st = Some l then None else Some l)"
proof -
  obtain st1 r where a: "activationStage svc st (model, xs) = (st1, r)"
    by (cases "activationStage svc st (model, xs)")
  from activationStage_fields(1,7) [OF a] a show ?thesis by (simp add: Let_def)
qed

lemma step_Input_pending:
  assumes "snd (activationStage svc st input) = Some l"
  shows "\<exists>p. pending (fst (step svc st (Input input))) = Some p \<and>
             (\<forall>batch. p = Inr batch \<longrightarrow> map fst batch = map id_ext l) \<and>
             ((\<forall>n url. returns (getScriptURLForExtension svc n url)) \<longrightarrow>
                (\<exists>batch. p = Inr batch))"
proof -
  obtain st1 where a: "activationStage svc st input = (st1, Some l)"
    using assms by (cases "activationStage svc st input") simp
  obtain p c calls where r: "resolveAll svc l (cache st1, invocations st1) = (p, c, calls)"
    by (metis prod_cases3)
  have "map fst batch = map id_ext l" if "p = Inr batch" for batch
    using resolveAll_batch [OF r [unfolded that]] by simp
  moreover have "\<exists>batch. p = Inr batch"
    if "\<forall>n url. returns (getScriptURLForExtension svc n url)"
    using resolveAll_returns [OF that, of l "(cache st1, invocations st1)"] r by simp
  ultimately show ?thesis using step_Input_passed [OF a r] by simp
qed

subsection \<open>C6: a re-enabled extension reappears at once\<close>

text \<open>
  C6. Let \<open>e\<close> have been returned by the activation filter on some delivery, and let
  the last delivery so far not enable any extension with the id of \<open>e\<close> (so that the
  list held by the activation stage has no entry with that id). Then the next
  delivery that enables an extension \<open>e'\<close> with that id passes
  \<^verbatim>\<open>distinctUntilChanged\<close> with a list that contains \<open>e'\<close>, and the list is handed to
  script resolution, whatever the model of that delivery is and whether or not the
  filter returns \<open>e'\<close> on it. A list emitted when that batch settles has an entry for
  \<open>e'\<close> if its URL resolved to a string. When no invocation of the resolver throws,
  the pending batch holds the id and its settling emits a list.
\<close>

theorem reenabled_reappears:
  assumes "e \<in> set (extensionActivationFilter svc xs model)"
    and "st = exec svc initial (evs1 @ Input (model, xs) # evs2 @ Input (model1, xs1) # settles)"
    and "inputsOf settles = []"
    and "id_ext e \<notin> id_ext ` set xs1"
    and "e' \<in> set ys" and "id_ext e' = id_ext e"
    and "st' = fst (step svc st (Input (model2, ys)))"
  shows "(\<exists>l. previous st = Some l \<and> id_ext e \<notin> id_ext ` set l) \<and>
         (\<exists>l. snd (activationStage svc st (model2, ys)) = Some l \<and> e' \<in> set l) \<and>
         (\<exists>p. pending st' = Some p \<and>
              (\<forall>batch. p = Inr batch \<longrightarrow> id_ext e \<in> fst ` set batch)) \<and>
         (\<forall>out u. snd (step svc st' Settle) = Some out \<and>
                  cache st' (getScriptURLFromExtensionManifest svc e') = Some (Some u) \<longrightarrow>
                  \<lparr>id_exe = id_ext e, scriptURL = u\<rparr> \<in> set out) \<and>
         ((\<forall>n url. returns (getScriptURLForExtension svc n url)) \<longrightarrow>
            (\<exists>batch. pending st' = Some (Inr batch) \<and> id_ext e \<in> fst ` set batch) \<and>
            (\<exists>out. snd (step svc st' Settle) = Some out \<and>
                (\<forall>u. cache st' (getScriptURLFromExtensionManifest svc e') = Some (Some u) \<longrightarrow>
                     \<lparr>id_exe = id_ext e, scriptURL = u\<rparr> \<in> set out)))"
proof -
  let ?st1 = "exec svc initial (evs1 @ Input (model, xs) # evs2)"
  let ?l1 = "activatedAndEnabled
     (pushActivated (activatedExtensionIDs ?st1) (extensionActivationFilter svc xs1 model1)) xs1"
  let ?l2 = "activatedAndEnabled
     (pushActivated (activatedExtensionIDs st) (extensionActivationFilter svc ys model2)) ys"
  have "st = exec svc (fst (step svc ?st1 (Input (model1, xs1)))) settles"
    unfolding assms(2) by (simp add: exec_append)
  with exec_no_inputs [OF assms(3)]
  have "previous st = previous (fst (step svc ?st1 (Input (model1, xs1))))" by simp
  then have p: "previous st = Some ?l1" by (simp add: step_Input_fields)
  from assms(4) have absent: "id_ext e \<notin> id_ext ` set ?l1"
    by (auto simp: activatedAndEnabled_def)
  from assms(1) have act: "id_ext e \<in> set (activatedExtensionIDs st)"
    using matched_is_activated [of e svc xs model initial evs1 "evs2 @ Input (model1, xs1) # settles"]
    unfolding assms(2) by simp
  with assms(5,6) have present: "e' \<in> set ?l2"
    by (simp add: activatedAndEnabled_def set_pushActivated)
  have "?l1 \<noteq> ?l2"
  proof
    assume "?l1 = ?l2"
    with present have "e' \<in> set ?l1" by simp
    then have "id_ext e' \<in> id_ext ` set ?l1" by (rule imageI)
    with assms(6) absent show False by simp
  qed
  with p have r: "snd (activationStage svc st (model2, ys)) = Some ?l2"
    by (simp add: activationStage_result Let_def)
  from step_Input_pending [OF r] obtain p where
    b: "pending st' = Some p"
    and ids: "\<And>batch. p = Inr batch \<Longrightarrow> map fst batch = map id_ext ?l2"
    and ret: "(\<forall>n url. returns (getScriptURLForExtension svc n url)) \<Longrightarrow> \<exists>batch. p = Inr batch"
    unfolding assms(7) by blast
  from present have "id_ext e' \<in> id_ext ` set ?l2" by (rule imageI)
  with assms(6) have inl: "id_ext e \<in> set (map id_ext ?l2)" by simp
  have inb: "id_ext e \<in> fst ` set batch" if "p = Inr batch" for batch
    using ids [OF that] inl by (metis set_map)
  have c: "consistent svc st'"
    unfolding assms(7) assms(2) by (intro consistent_step consistent_exec consistent_initial)
  have l: "latest st' = Some (model2, ys)"
    unfolding assms(7) by (simp add: step_Input_fields)
  from act step_activated_mono have act': "id_ext e' \<in> set (activatedExtensionIDs st')"
    unfolding assms(6) assms(7) by blast
  have em: "\<lparr>id_exe = id_ext e, scriptURL = u\<rparr> \<in> set out"
    if "snd (step svc st' Settle) = Some out"
      and "cache st' (getScriptURLFromExtensionManifest svc e') = Some (Some u)" for out u
    using emitted_contains [OF c l assms(5) act' that] assms(6) by simp
  have fin: "(\<exists>batch. pending st' = Some (Inr batch) \<and> id_ext e \<in> fst ` set batch) \<and>
            (\<exists>out. snd (step svc st' Settle) = Some out \<and>
                (\<forall>u. cache st' (getScriptURLFromExtensionManifest svc e') = Some (Some u) \<longrightarrow>
                     \<lparr>id_exe = id_ext e, scriptURL = u\<rparr> \<in> set out))"
    if "\<forall>n url. returns (getScriptURLForExtension svc n url)"
  proof -
    from ret [OF that] obtain batch where p: "p = Inr batch" ..
    with b have o: "snd (step svc st' Settle) = Some (executable batch)"
      by (simp add: step_Settle)
    with em have "\<exists>out. snd (step svc st' Settle) = Some out \<and>
                (\<forall>u. cache st' (getScriptURLFromExtensionManifest svc e') = Some (Some u) \<longrightarrow>
                     \<lparr>id_exe = id_ext e, scriptURL = u\<rparr> \<in> set out)" by blast
    with b p inb show ?thesis by blast
  qed
  from p absent r present b inb em fin show ?thesis by blast
qed

lemma runReenable_settles:
  "snd (step exampleService
          (fst (step exampleService (exec exampleService initial runReenable)
                  (Input (modelPython, [extGo, extPython])))) Settle) =
     Some [\<lparr>id_exe = ''a'', scriptURL = ''blob:u1''\<rparr>, \<lparr>id_exe = ''b'', scriptURL = ''blob:u2''\<rparr>]"
  by (simp add: runReenable_def example_defs engine_defs)

lemma runReenable_previous:
  "previous (exec exampleService initial runReenable) = Some []"
  by (simp add: runReenable_def example_defs engine_defs)

theorem reenabled_reappears_witness:
  "extGo \<in> set (extensionActivationFilter exampleService [extGo, extPython] modelGo) \<and>
   extGo \<notin> set (extensionActivationFilter exampleService [extGo, extPython] modelPython) \<and>
   inputsOf ([Settle] :: string event list) = [] \<and>
   id_ext extGo \<notin> id_ext ` set [extPython] \<and>
   extGo \<in> set [extGo, extPython] \<and>
   previous (exec exampleService initial runReenable) = Some [] \<and>
   (\<exists>l. snd (activationStage exampleService (exec exampleService initial runReenable)
           (modelPython, [extGo, extPython])) = Some l \<and> extGo \<in> set l) \<and>
   (\<forall>n url. returns (getScriptURLForExtension exampleService n url)) \<and>
   (\<exists>batch. pending (fst (step exampleService (exec exampleService initial runReenable)
           (Input (modelPython, [extGo, extPython])))) = Some (Inr batch) \<and>
        id_ext extGo \<in> fst ` set batch) \<and>
   snd (step exampleService
          (fst (step exampleService (exec exampleService initial runReenable)
                  (Input (modelPython, [extGo, extPython])))) Settle) =
     Some [\<lparr>id_exe = ''a'', scriptURL = ''blob:u1''\<rparr>, \<lparr>id_exe = ''b'', scriptURL = ''blob:u2''\<rparr>]"
proof -
  have m: "extGo \<in> set (extensionActivationFilter exampleService [extGo, extPython] modelGo)"
    by (simp add: example_defs engine_defs)
  have n: "extGo \<notin> set (extensionActivationFilter exampleService [extGo, extPython] modelPython)"
    by (simp add: example_defs engine_defs)
  have s: "inputsOf ([Settle] :: string event list) = []" by simp
  have d: "id_ext extGo \<notin> id_ext ` set [extPython]" by (simp add: example_defs)
  have e: "extGo \<in> set [extGo, extPython]" by simp
  have r: "exec exampleService initial runReenable =
           exec exampleService initial
             ([] @ Input (modelGo, [extGo, extPython]) # [Settle] @ Input (modelGo, [extPython]) # [Settle])"
    by (simp add: runReenable_def)
  note t = reenabled_reappears [where svc = exampleService and e = extGo and e' = extGo
      and ?evs1.0 = "[]" and ?evs2.0 = "[Settle]" and ?model2.0 = modelPython,
      OF m r s d e refl refl]
  have nt: "\<forall>n url. returns (getScriptURLForExtension exampleService n url)"
    by (simp add: example_defs returns_def)
  from m n s d e t nt runReenable_settles runReenable_previous show ?thesis by blast
qed

lemma passed_distinct_adj:
  "distinct_adj ((case previous st of None \<Rightarrow> [] | Some a \<Rightarrow> [a]) @ passed svc st evs)"
proof (induction evs arbitrary: st)
  case Nil
  show ?case by (simp split: option.splits)
next
  case (Cons ev evs)
  show ?case
  proof (cases ev)
    case Settle
    with Cons [of "fst (step svc st Settle)"] show ?thesis
      by (simp add: step_Settle_fields)
  next
    case (Input input)
    obtain model xs where i: "input = (model, xs)" by (cases input)
    let ?l = "activatedAndEnabled
       (pushActivated (activatedExtensionIDs st) (extensionActivationFilter svc xs model)) xs"
    from Cons [of "fst (step svc st (Input (model, xs)))"]
    have IH: "distinct_adj (?l # passed svc (fst (step svc st (Input (model, xs)))) evs)"
      by (simp add: step_Input_fields)
    show ?thesis
    proof (cases "previous st = Some ?l")
      case True
      with IH show ?thesis unfolding Input i
        by (simp add: activationStage_result Let_def)
    next
      case False
      with IH show ?thesis unfolding Input i
        by (cases "previous st") (simp_all add: activationStage_result Let_def)
    qed
  qed
qed

subsection \<open>C8: an unchanged list is suppressed\<close>

text \<open>
  C8, as stated, fails for the emitted lists: \<^verbatim>\<open>distinctUntilChanged\<close> compares a list
  with the list it let through last, not with the list of the last emission, and
  \<^verbatim>\<open>switchMap\<close> drops a pending batch. In the run below a wildcard extension is
  enabled and disabled again before its batch settles: the lists \<open>[a]\<close>, \<open>[a, w]\<close>,
  \<open>[a]\<close> leave the activation stage, the batch of the second is dropped, and the two
  consecutive emissions both come from the list \<open>[a]\<close>.
\<close>

theorem equal_lists_emitted_twice:
  "outputs exampleService initial runRepeat =
     [[\<lparr>id_exe = ''a'', scriptURL = ''blob:u1''\<rparr>], [\<lparr>id_exe = ''a'', scriptURL = ''blob:u1''\<rparr>]] \<and>
   passed exampleService initial runRepeat = [[extGo], [extGo, extAll], [extGo]] \<and>
   previous (exec exampleService initial (take 1 runRepeat)) = Some [extGo] \<and>
   snd (step exampleService (exec exampleService initial (take 1 runRepeat)) Settle) =
     Some [\<lparr>id_exe = ''a'', scriptURL = ''blob:u1''\<rparr>] \<and>
   previous (exec exampleService initial (take 4 runRepeat)) = Some [extGo] \<and>
   snd (step exampleService (exec exampleService initial (take 4 runRepeat)) Settle) =
     Some [\<lparr>id_exe = ''a'', scriptURL = ''blob:u1''\<rparr>]"
  by (simp add: runRepeat_def example_defs engine_defs)

text \<open>
  C8, amended. The lists that leave the activation stage (\<^verbatim>\<open>distinctUntilChanged\<close>,
  line 80) never hold two equal lists in a row. When the list computed for a delivery
  equals the list let through last, nothing is passed on: the step emits nothing,
  calls no resolver, and leaves the cache and the pending batch as they were. Every
  emitted list is the resolution of the list let through last.
\<close>

theorem unchanged_list_suppressed:
  assumes "previous st = Some a"
    and "isEqual a (activatedAndEnabled
           (pushActivated (activatedExtensionIDs st) (extensionActivationFilter svc xs model)) xs)"
  shows "distinct_adj (passed svc initial evs) \<and>
         snd (activationStage svc st (model, xs)) = None \<and>
         passed svc st [Input (model, xs)] = [] \<and>
         snd (step svc st (Input (model, xs))) = None \<and>
         cache (fst (step svc st (Input (model, xs)))) = cache st \<and>
         invocations (fst (step svc st (Input (model, xs)))) = invocations st \<and>
         pending (fst (step svc st (Input (model, xs)))) = pending st \<and>
         (\<forall>out. snd (step svc (exec svc initial evs) ev) = Some out \<longrightarrow>
            (\<exists>l. previous (exec svc initial evs) = Some l \<and>
                 out = executable (batchOf svc (cache (exec svc initial evs)) l)))"
proof -
  have d: "distinct_adj (passed svc initial evs)"
    using passed_distinct_adj [of initial svc evs] by (simp add: initial_def)
  from assms have n: "snd (activationStage svc st (model, xs)) = None"
    by (simp add: activationStage_result Let_def isEqual_def)
  obtain st1 where a: "activationStage svc st (model, xs) = (st1, None)"
    using n by (cases "activationStage svc st (model, xs)") simp
  have c: "consistent svc (exec svc initial evs)"
    by (intro consistent_exec consistent_initial)
  have e: "\<exists>l. previous (exec svc initial evs) = Some l \<and>
                 out = executable (batchOf svc (cache (exec svc initial evs)) l)"
    if "snd (step svc (exec svc initial evs) ev) = Some out" for out
  proof -
    from that obtain batch where p: "pending (exec svc initial evs) = Some (Inr batch)"
      and o: "out = executable batch" by (rule emission_is_settle)
    from c p o show ?thesis by (auto simp: consistent_def split: option.splits)
  qed
  from step_Input_suppressed [OF a] activationStage_fields(4,5,6) [OF a] d n e show ?thesis
    by simp
qed

theorem unchanged_list_suppressed_witness:
  "previous (exec exampleService initial [Input (modelGo, [extGo, extPython]), Settle]) = Some [extGo] \<and>
   isEqual [extGo] (activatedAndEnabled
      (pushActivated
         (activatedExtensionIDs (exec exampleService initial [Input (modelGo, [extGo, extPython]), Settle]))
         (extensionActivationFilter exampleService [extGo, extPython] modelNone))
      [extGo, extPython]) \<and>
   distinct_adj (passed exampleService initial runGoThenPython) \<and>
   snd (step exampleService (exec exampleService initial [Input (modelGo, [extGo, extPython]), Settle])
          (Input (modelNone, [extGo, extPython]))) = None \<and>
   invocations (fst (step exampleService
          (exec exampleService initial [Input (modelGo, [extGo, extPython]), Settle])
          (Input (modelNone, [extGo, extPython])))) =
     invocations (exec exampleService initial [Input (modelGo, [extGo, extPython]), Settle]) \<and>
   snd (step exampleService (exec exampleService initial runGoThenPython) Settle) =
     Some [\<lparr>id_exe = ''a'', scriptURL = ''blob:u1''\<rparr>, \<lparr>id_exe = ''b'', scriptURL = ''blob:u2''\<rparr>] \<and>
   (\<exists>l. previous (exec exampleService initial runGoThenPython) = Some l \<and>
        [\<lparr>id_exe = ''a'', scriptURL = ''blob:u1''\<rparr>, \<lparr>id_exe = ''b'', scriptURL = ''blob:u2''\<rparr>] =
          executable (batchOf exampleService (cache (exec exampleService initial runGoThenPython)) l))"
proof -
  have p: "previous (exec exampleService initial [Input (modelGo, [extGo, extPython]), Settle]) =
             Some [extGo]"
    by (simp add: example_defs engine_defs)
  have q: "isEqual [extGo] (activatedAndEnabled
      (pushActivated
         (activatedExtensionIDs (exec exampleService initial [Input (modelGo, [extGo, extPython]), Settle]))
         (extensionActivationFilter exampleService [extGo, extPython] modelNone))
      [extGo, extPython])"
    by (simp add: example_defs engine_defs)
  from unchanged_list_suppressed [OF p q, of runGoThenPython Settle] p q runGoThenPython_settles
  show ?thesis by blast
qed








subsection \<open>C3: the resolver is invoked once per URL\<close>







lemma activationCallback_array:
  assumes "manifest e = ExtensionManifest (Array events) r"
    and "visibleTextDocuments model \<noteq> NotArray"
  shows "activationCallback model e \<longleftrightarrow>
           (\<exists>ev\<in>set events. ev = ''*'' \<or>
              (\<exists>d\<in>set (documentsOf model). ev = ''onLanguage:'' @ languageId d))"
  using assms
  by (cases "visibleTextDocuments model")
     (auto simp: activationCallback_def eventMatches_def list_ex_iff)

lemma neverActivates_callback: "neverActivates x \<Longrightarrow> \<not> activationCallback model x"
  by (cases "visibleTextDocuments model")
     (auto simp: neverActivates_def activationCallback_def split: manifest_value.splits)

lemma filter_default [simp]:
  "extensionActivationFilter (defaultService resolver getURL) =
     extensionsWithMatchedActivationEvent"
  by (simp add: defaultService_def)

subsection \<open>C5: when an extension matches\<close>

text \<open>
  C5. Let \<open>e\<close> be enabled, with a manifest whose activation events are the array
  \<open>events\<close>, and let the model's documents be null or an array. Then the default
  filter returns \<open>e\<close> if and only if some event is \<open>*\<close> or is \<open>onLanguage:\<close> followed by
  the language id of a visible document. With no visible documents, \<open>e\<close> is returned
  if and only if \<open>*\<close> is among its events. An extension whose events are \<open>[*]\<close> is
  returned, activated and passed on by the first delivery, whatever the documents.
\<close>

theorem activation_predicate_iff:
  assumes "manifest e = ExtensionManifest (Array events) r"
    and "visibleTextDocuments model \<noteq> NotArray"
    and "e \<in> set enabledExtensions"
  shows "(e \<in> set (extensionsWithMatchedActivationEvent enabledExtensions model) \<longleftrightarrow>
            (\<exists>ev\<in>set events. ev = ''*'' \<or>
               (\<exists>d\<in>set (documentsOf model). ev = ''onLanguage:'' @ languageId d))) \<and>
         (documentsOf model = [] \<longrightarrow>
            (e \<in> set (extensionsWithMatchedActivationEvent enabledExtensions model) \<longleftrightarrow>
               ''*'' \<in> set events)) \<and>
         (events = [''*''] \<longrightarrow>
            e \<in> set (extensionsWithMatchedActivationEvent enabledExtensions model) \<and>
            id_ext e \<in> set (activatedExtensionIDs
              (fst (step (defaultService resolver getURL) initial
                      (Input (model, enabledExtensions))))) \<and>
            (\<exists>l. snd (activationStage (defaultService resolver getURL) initial
                        (model, enabledExtensions)) = Some l \<and> e \<in> set l))"
proof -
  note cb = activationCallback_array [OF assms(1,2)]
  from assms(3) have m: "e \<in> set (extensionsWithMatchedActivationEvent enabledExtensions model)
      \<longleftrightarrow> activationCallback model e"
    by (simp add: extensionsWithMatchedActivationEvent_def)
  have 1: "e \<in> set (extensionsWithMatchedActivationEvent enabledExtensions model) \<longleftrightarrow>
            (\<exists>ev\<in>set events. ev = ''*'' \<or>
               (\<exists>d\<in>set (documentsOf model). ev = ''onLanguage:'' @ languageId d))"
    unfolding m cb ..
  have 2: "e \<in> set (extensionsWithMatchedActivationEvent enabledExtensions model) \<longleftrightarrow>
               ''*'' \<in> set events" if "documentsOf model = []"
    unfolding 1 using that by auto
  have 3: "e \<in> set (extensionsWithMatchedActivationEvent enabledExtensions model) \<and>
            id_ext e \<in> set (activatedExtensionIDs
              (fst (step (defaultService resolver getURL) initial
                      (Input (model, enabledExtensions))))) \<and>
            (\<exists>l. snd (activationStage (defaultService resolver getURL) initial
                        (model, enabledExtensions)) = Some l \<and> e \<in> set l)"
    if w: "events = [''*'']"
  proof -
    from w have a: "e \<in> set (extensionsWithMatchedActivationEvent enabledExtensions model)"
      unfolding 1 by simp
    then have b: "id_ext e \<in> set (pushActivated (activatedExtensionIDs initial)
        (extensionsWithMatchedActivationEvent enabledExtensions model))"
      by (simp add: set_pushActivated)
    with assms(3) have "e \<in> set (activatedAndEnabled (pushActivated (activatedExtensionIDs initial)
        (extensionsWithMatchedActivationEvent enabledExtensions model)) enabledExtensions)"
      by (simp add: activatedAndEnabled_def)
    then have "\<exists>l. snd (activationStage (defaultService resolver getURL) initial
                        (model, enabledExtensions)) = Some l \<and> e \<in> set l"
      by (simp add: activationStage_result Let_def initial_def)
    with a b show ?thesis by (simp add: step_Input_fields)
  qed
  from 1 2 3 show ?thesis by blast
qed

theorem activation_predicate_iff_witness:
  "manifest extAll = ExtensionManifest (Array [''*'']) ''u3'' \<and>
   visibleTextDocuments modelNone \<noteq> NotArray \<and>
   extAll \<in> set [extGo, extAll] \<and>
   documentsOf modelNone = [] \<and>
   extAll \<in> set (extensionsWithMatchedActivationEvent [extGo, extAll] modelNone) \<and>
   extGo \<notin> set (extensionsWithMatchedActivationEvent [extGo, extAll] modelNone) \<and>
   id_ext extAll \<in> set (activatedExtensionIDs
     (fst (step (defaultService hostResolver urlOf) initial (Input (modelNone, [extGo, extAll]))))) \<and>
   (\<exists>l. snd (activationStage (defaultService hostResolver urlOf) initial
               (modelNone, [extGo, extAll])) = Some l \<and> extAll \<in> set l)"
proof -
  have a: "manifest extAll = ExtensionManifest (Array [''*'']) ''u3''" by (simp add: extAll_def)
  have b: "visibleTextDocuments modelNone \<noteq> NotArray" by (simp add: modelNone_def)
  have c: "extAll \<in> set [extGo, extAll]" by simp
  have d: "documentsOf modelNone = []" by (simp add: modelNone_def)
  have g: "extGo \<notin> set (extensionsWithMatchedActivationEvent [extGo, extAll] modelNone)"
    by (simp add: example_defs engine_defs)
  note t = activation_predicate_iff [OF a b c, where resolver = hostResolver and getURL = urlOf]
  from t a b c d g show ?thesis by blast
qed

subsection \<open>C7: an exception excludes one extension for one delivery\<close>

text \<open>
  C7. When the evaluation of \<open>x\<close> throws, the callback returns false for \<open>x\<close>; the
  filter returns for the other extensions what it returns without \<open>x\<close> in the list;
  and the state after the delivery has the activated ids it would have without \<open>x\<close>,
  so nothing of the exception is remembered. On the next delivery \<open>x\<close> is evaluated
  anew: if its evaluation returns true there, \<open>x\<close> is matched and is in the list the
  activation stage holds.
\<close>

theorem predicate_exception_isolated:
  assumes "tryActivation x model = Inl err"
  shows "\<not> activationCallback model x \<and>
         extensionsWithMatchedActivationEvent (xs @ x # ys) model =
           extensionsWithMatchedActivationEvent (xs @ ys) model \<and>
         activatedExtensionIDs
           (fst (step (defaultService resolver getURL) st (Input (model, xs @ x # ys)))) =
         activatedExtensionIDs
           (fst (step (defaultService resolver getURL) st (Input (model, xs @ ys)))) \<and>
         (tryActivation x model' = Inr True \<and> x \<in> set zs \<longrightarrow>
            x \<in> set (extensionsWithMatchedActivationEvent zs model') \<and>
            (\<exists>l. previous
                   (fst (step (defaultService resolver getURL)
                      (fst (step (defaultService resolver getURL) st (Input (model, xs @ x # ys))))
                      (Input (model', zs)))) = Some l \<and> x \<in> set l))"
proof -
  from assms have 1: "\<not> activationCallback model x" by (simp add: activationCallback_def)
  then have 2: "extensionsWithMatchedActivationEvent (xs @ x # ys) model =
           extensionsWithMatchedActivationEvent (xs @ ys) model"
    by (simp add: extensionsWithMatchedActivationEvent_def)
  have 3: "activatedExtensionIDs
           (fst (step (defaultService resolver getURL) st (Input (model, xs @ x # ys)))) =
         activatedExtensionIDs
           (fst (step (defaultService resolver getURL) st (Input (model, xs @ ys))))"
    by (simp add: step_Input_fields 2)
  have 4: "x \<in> set (extensionsWithMatchedActivationEvent zs model') \<and>
            (\<exists>l. previous
                   (fst (step (defaultService resolver getURL)
                      (fst (step (defaultService resolver getURL) st (Input (model, xs @ x # ys))))
                      (Input (model', zs)))) = Some l \<and> x \<in> set l)"
    if "tryActivation x model' = Inr True" and "x \<in> set zs"
  proof -
    from that have "x \<in> set (extensionsWithMatchedActivationEvent zs model')"
      by (simp add: extensionsWithMatchedActivationEvent_def activationCallback_def)
    with that(2) show ?thesis
      by (simp add: step_Input_fields activatedAndEnabled_def set_pushActivated)
  qed
  from 1 2 3 4 show ?thesis by blast
qed

theorem predicate_exception_isolated_witness:
  "tryActivation extBroken modelGo = Inl TypeError \<and>
   extensionsWithMatchedActivationEvent ([extGo] @ extBroken # [extPython]) modelGo = [extGo] \<and>
   tryActivation extGo modelBroken = Inl TypeError \<and>
   tryActivation extGo modelGo = Inr True \<and>
   extGo \<in> set [extGo] \<and>
   extensionsWithMatchedActivationEvent ([] @ extGo # []) modelBroken = [] \<and>
   extGo \<in> set (extensionsWithMatchedActivationEvent [extGo] modelGo) \<and>
   (\<exists>l. previous
          (fst (step (defaultService hostResolver urlOf)
             (fst (step (defaultService hostResolver urlOf) initial
                     (Input (modelBroken, [] @ extGo # []))))
             (Input (modelGo, [extGo])))) = Some l \<and> extGo \<in> set l)"
proof -
  have a: "tryActivation extBroken modelGo = Inl TypeError" by (simp add: example_defs)
  have b: "tryActivation extGo modelBroken = Inl TypeError" by (simp add: example_defs)
  have c: "tryActivation extGo modelGo = Inr True"
    by (simp add: example_defs eventMatches_def)
  have d: "extGo \<in> set [extGo]" by simp
  have e: "extensionsWithMatchedActivationEvent ([extGo] @ [extPython]) modelGo = [extGo]"
    by (simp add: example_defs engine_defs)
  have f: "extensionsWithMatchedActivationEvent ([] @ []) modelBroken = ([] :: string ConfiguredExtension list)"
    by (simp add: example_defs engine_defs)
  note t1 = predicate_exception_isolated [OF a, where xs = "[extGo]" and ys = "[extPython]"]
  note t2 = predicate_exception_isolated [OF b, where xs = "[]" and ys = "[]"
      and model' = modelGo and zs = "[extGo]" and resolver = hostResolver and getURL = urlOf
      and st = initial]
  from t1 e have g: "extensionsWithMatchedActivationEvent ([extGo] @ extBroken # [extPython]) modelGo = [extGo]"
    by simp
  from t2 f have h: "extensionsWithMatchedActivationEvent ([] @ extGo # []) modelBroken = []"
    by simp
  from t2 c d have i: "extGo \<in> set (extensionsWithMatchedActivationEvent [extGo] modelGo) \<and>
   (\<exists>l. previous
          (fst (step (defaultService hostResolver urlOf)
             (fst (step (defaultService hostResolver urlOf) initial
                     (Input (modelBroken, [] @ extGo # []))))
             (Input (modelGo, [extGo])))) = Some l \<and> extGo \<in> set l)"
    by blast
  from a b c d g h i show ?thesis by blast
qed

lemma activated_origin:
  assumes "i \<in> set (activatedExtensionIDs (exec (defaultService resolver getURL) st evs))"
  shows "i \<in> set (activatedExtensionIDs st) \<or>
         (\<exists>input\<in>set (inputsOf evs). \<exists>x\<in>set (snd input).
            id_ext x = i \<and> activationCallback (fst input) x)"
  using assms
proof (induction evs arbitrary: st)
  case Nil
  then show ?case by simp
next
  case (Cons ev evs)
  let ?svc = "defaultService resolver getURL"
  from Cons.prems have "i \<in> set (activatedExtensionIDs (exec ?svc (fst (step ?svc st ev)) evs))"
    by simp
  from Cons.IH [OF this] show ?case
  proof
    assume a: "i \<in> set (activatedExtensionIDs (fst (step ?svc st ev)))"
    show ?thesis
    proof (cases ev)
      case Settle
      with a show ?thesis by (simp add: step_Settle_fields)
    next
      case (Input input)
      obtain model xs where "input = (model, xs)" by (cases input)
      with a Input show ?thesis
        by (auto simp: step_Input_fields set_pushActivated extensionsWithMatchedActivationEvent_def)
    qed
  next
    assume "\<exists>input\<in>set (inputsOf evs). \<exists>x\<in>set (snd input).
            id_ext x = i \<and> activationCallback (fst input) x"
    then show ?thesis by (cases ev) auto
  qed
qed

lemma executable_ids: "id_exe ` set (executable batch) \<subseteq> fst ` set batch"
  by (induction batch rule: executable.induct) auto

lemma outputs_activated:
  assumes "consistent svc st" and "out \<in> set (outputs svc st evs)"
  shows "id_exe ` set out \<subseteq> set (activatedExtensionIDs (exec svc st evs))"
  using assms
proof (induction evs arbitrary: st)
  case Nil
  then show ?case by simp
next
  case (Cons ev evs)
  let ?st = "fst (step svc st ev)"
  from Cons.prems(1) have c: "consistent svc ?st" by (rule consistent_step)
  from Cons.prems(2) consider "snd (step svc st ev) = Some out" | "out \<in> set (outputs svc ?st evs)"
    by (auto split: option.splits)
  then show ?case
  proof cases
    case 1
    from Cons.prems(1) 1 obtain enabledExtensions where
      out: "out = executable (batchOf svc (cache st)
             (activatedAndEnabled (activatedExtensionIDs st) enabledExtensions))"
      by (rule emitted_batch)
    have "id_exe ` set out \<subseteq> set (activatedExtensionIDs st)"
      unfolding out using executable_ids
      by (fastforce simp: batchOf_def activatedAndEnabled_def)
    with step_activated_mono [of st svc ev] exec_activated_mono [of ?st svc evs]
    have "id_exe ` set out \<subseteq> set (activatedExtensionIDs (exec svc ?st evs))" by blast
    then show ?thesis by simp
  next
    case 2
    from Cons.IH [OF c 2] show ?thesis by simp
  qed
qed

lemma passed_activated:
  assumes "l \<in> set (passed svc st evs)"
  shows "id_ext ` set l \<subseteq> set (activatedExtensionIDs (exec svc st evs))"
  using assms
proof (induction evs arbitrary: st)
  case Nil
  then show ?case by simp
next
  case (Cons ev evs)
  show ?case
  proof (cases ev)
    case Settle
    with Cons show ?thesis by simp
  next
    case (Input input)
    obtain model xs where i: "input = (model, xs)" by (cases input)
    let ?st = "fst (step svc st (Input (model, xs)))"
    from Cons.prems consider "snd (activationStage svc st (model, xs)) = Some l"
      | "l \<in> set (passed svc ?st evs)"
      unfolding Input i by (auto split: option.splits)
    then show ?thesis
    proof cases
      case 1
      then have "l = activatedAndEnabled (activatedExtensionIDs ?st) xs"
        by (simp add: activationStage_result step_Input_fields Let_def split: if_splits)
      then have "id_ext ` set l \<subseteq> set (activatedExtensionIDs ?st)"
        by (auto simp: activatedAndEnabled_def)
      with exec_activated_mono [of ?st svc evs]
      have "id_ext ` set l \<subseteq> set (activatedExtensionIDs (exec svc ?st evs))" by blast
      then show ?thesis unfolding Input i by simp
    next
      case 2
      from Cons.IH [OF 2] show ?thesis unfolding Input i by simp
    qed
  qed
qed

subsection \<open>C4: extensions that the filter always excludes\<close>

text \<open>
  C4, as stated, fails: the activated ids are kept by id, so an extension whose id
  was activated through an earlier descriptor stays in the list of the activation
  stage when its manifest later becomes an error placeholder. In the run below the
  manifest of \<open>a\<close> is fetched, \<open>a\<close> is activated, and the next delivery carries \<open>a\<close>
  with a failed fetch: the descriptor with the error placeholder is enabled, and it is
  the list that leaves the activation stage.
\<close>

theorem excluded_extension_in_output:
  "neverActivates extGoFailed \<and>
   manifest extGoFailed = ErrorLike ''fetch failed'' \<and>
   latest (exec exampleService initial runFetchFails) = Some (modelGo, [extGoFailed]) \<and>
   activatedExtensionIDs (exec exampleService initial runFetchFails) = [''a''] \<and>
   passed exampleService initial runFetchFails = [[extGo], [extGoFailed]] \<and>
   previous (exec exampleService initial runFetchFails) = Some [extGoFailed]"
  by (simp add: runFetchFails_def neverActivates_def example_defs engine_defs)

text \<open>
  C4, amended. An extension \<open>e\<close> without manifest, with an error placeholder, or with
  absent or empty activation events is never returned by the default filter. A
  delivery puts its id among the activated ids only if the id was there before or
  another enabled descriptor with the same id is not of this kind. If every
  descriptor that carries the id of \<open>e\<close> in the deliveries of a run is of this kind,
  the id is never activated, and \<open>e\<close> is in no list that leaves the activation stage
  and in no emitted list.
\<close>

theorem excluded_never_matches:
  assumes "neverActivates e"
    and "\<forall>input\<in>set (inputsOf evs). \<forall>x\<in>set (snd input). id_ext x = id_ext e \<longrightarrow> neverActivates x"
  shows "e \<notin> set (extensionsWithMatchedActivationEvent xs model) \<and>
         (id_ext e \<in> set (activatedExtensionIDs
                           (fst (step (defaultService resolver getURL) st (Input (model, xs))))) \<longrightarrow>
            id_ext e \<in> set (activatedExtensionIDs st) \<or>
            (\<exists>x\<in>set xs. id_ext x = id_ext e \<and> \<not> neverActivates x)) \<and>
         id_ext e \<notin> set (activatedExtensionIDs (exec (defaultService resolver getURL) initial evs)) \<and>
         (\<forall>l\<in>set (passed (defaultService resolver getURL) initial evs). e \<notin> set l) \<and>
         (\<forall>out\<in>set (outputs (defaultService resolver getURL) initial evs).
            id_ext e \<notin> id_exe ` set out)"
proof -
  let ?svc = "defaultService resolver getURL"
  from assms(1) have 1: "e \<notin> set (extensionsWithMatchedActivationEvent xs model)"
    by (simp add: extensionsWithMatchedActivationEvent_def neverActivates_callback)
  have 2: "id_ext e \<in> set (activatedExtensionIDs st) \<or>
            (\<exists>x\<in>set xs. id_ext x = id_ext e \<and> \<not> neverActivates x)"
    if "id_ext e \<in> set (activatedExtensionIDs (fst (step ?svc st (Input (model, xs)))))"
  proof -
    from that have "id_ext e \<in> set (activatedExtensionIDs st) \<or>
        (\<exists>x\<in>set xs. activationCallback model x \<and> id_ext x = id_ext e)"
      by (auto simp: step_Input_fields set_pushActivated extensionsWithMatchedActivationEvent_def)
    with neverActivates_callback show ?thesis by blast
  qed
  have 3: "id_ext e \<notin> set (activatedExtensionIDs (exec ?svc initial evs))"
  proof
    assume "id_ext e \<in> set (activatedExtensionIDs (exec ?svc initial evs))"
    from activated_origin [OF this]
    obtain input x where "input \<in> set (inputsOf evs)" "x \<in> set (snd input)"
      "id_ext x = id_ext e" "activationCallback (fst input) x"
      by (auto simp: initial_def)
    with assms(2) neverActivates_callback show False by blast
  qed
  have 4: "e \<notin> set l" if "l \<in> set (passed ?svc initial evs)" for l
    using passed_activated [OF that] 3 by blast
  have 5: "id_ext e \<notin> id_exe ` set out" if "out \<in> set (outputs ?svc initial evs)" for out
    using outputs_activated [OF consistent_initial that] 3 by blast
  from 1 2 3 4 5 show ?thesis by blast
qed

lemma runNeverFetched_excluded:
  "\<forall>input\<in>set (inputsOf runNeverFetched). \<forall>x\<in>set (snd input).
     id_ext x = id_ext extGoFailed \<longrightarrow> neverActivates x"
  by (simp add: runNeverFetched_def neverActivates_def example_defs)

theorem excluded_never_matches_witness:
  "neverActivates extGoFailed \<and>
   extGoFailed \<notin> set (extensionsWithMatchedActivationEvent [extGoFailed, extPython] modelGo) \<and>
   id_ext extGoFailed \<in> set (activatedExtensionIDs
      (fst (step (defaultService hostResolver urlOf)
              (exec (defaultService hostResolver urlOf) initial [Input (modelGo, [extGo])])
              (Input (modelGo, [extGoFailed, extPython]))))) \<and>
   id_ext extGoFailed \<in> set (activatedExtensionIDs
      (exec (defaultService hostResolver urlOf) initial [Input (modelGo, [extGo])])) \<and>
   id_ext extGoFailed \<notin> set (activatedExtensionIDs
      (exec (defaultService hostResolver urlOf) initial runNeverFetched)) \<and>
   activatedExtensionIDs (exec (defaultService hostResolver urlOf) initial runNeverFetched) = [''b'']"
proof -
  have a: "neverActivates extGoFailed" by (simp add: neverActivates_def example_defs)
  have b: "activatedExtensionIDs (exec (defaultService hostResolver urlOf) initial runNeverFetched)
             = [''b'']"
    by (simp add: runNeverFetched_def example_defs engine_defs)
  have c: "id_ext extGoFailed \<in> set (activatedExtensionIDs
      (fst (step (defaultService hostResolver urlOf)
              (exec (defaultService hostResolver urlOf) initial [Input (modelGo, [extGo])])
              (Input (modelGo, [extGoFailed, extPython])))))"
    by (simp add: example_defs engine_defs)
  have d: "id_ext extGoFailed \<in> set (activatedExtensionIDs
      (exec (defaultService hostResolver urlOf) initial [Input (modelGo, [extGo])]))"
    by (simp add: example_defs engine_defs)
  note t = excluded_never_matches [OF a runNeverFetched_excluded,
      where xs = "[extGoFailed, extPython]" and model = modelGo and resolver = hostResolver
        and getURL = urlOf
        and st = "exec (defaultService hostResolver urlOf) initial [Input (modelGo, [extGo])]"]
  from t a b c d show ?thesis by blast
qed

lemma passed_stageLists:
  "passed svc st evs =
     stageLists (extensionActivationFilter svc) (activatedExtensionIDs st) (previous st)
       (inputsOf evs)"
proof (induction evs arbitrary: st)
  case Nil
  show ?case by simp
next
  case (Cons ev evs)
  show ?case
  proof (cases ev)
    case Settle
    with Cons [of "fst (step svc st Settle)"] show ?thesis
      by (simp add: step_Settle_fields)
  next
    case (Input input)
    obtain model xs where i: "input = (model, xs)" by (cases input)
    from Cons [of "fst (step svc st (Input (model, xs)))"] show ?thesis
      unfolding Input i
      by (simp add: step_Input_fields activationStage_result Let_def)
  qed
qed

lemma fetchScriptURL_answer:
  assumes "returns r1" and "returns r2" and "answer r1 = answer r2"
  shows "fetchScriptURL r1 = fetchScriptURL r2"
  using assms
  by (cases r1; cases r2) (simp_all add: fetchScriptURL_def returns_def answer_def)

lemma memoized_cong:
  assumes "\<forall>n url. fetchScriptURL (r1 n url) = fetchScriptURL (r2 n url)"
  shows "memoizedGetScriptURLForExtension r1 = memoizedGetScriptURLForExtension r2"
proof -
  from assms have "(\<lambda>n url. fetchScriptURL (r1 n url)) = (\<lambda>n url. fetchScriptURL (r2 n url))"
    by (intro ext) simp
  then show ?thesis by (simp add: fun_eq_iff memoizedGetScriptURLForExtension_def)
qed

lemma resolveAll_cong:
  assumes "\<forall>n url. fetchScriptURL (r1 n url) = fetchScriptURL (r2 n url)"
  shows "resolveAll (svc\<lparr>getScriptURLForExtension := r1\<rparr>) xs memo =
         resolveAll (svc\<lparr>getScriptURLForExtension := r2\<rparr>) xs memo"
proof (induction xs arbitrary: memo)
  case Nil
  show ?case by simp
next
  case (Cons x xs)
  then show ?case
    by (simp add: memoized_cong [OF assms] split: prod.splits sum.splits)
qed

lemma activationStage_resolver:
  "activationStage (svc\<lparr>getScriptURLForExtension := r\<rparr>) st input = activationStage svc st input"
  by (simp add: activationStage_def)

lemma step_cong:
  assumes "\<forall>n url. fetchScriptURL (r1 n url) = fetchScriptURL (r2 n url)"
  shows "step (svc\<lparr>getScriptURLForExtension := r1\<rparr>) st ev =
         step (svc\<lparr>getScriptURLForExtension := r2\<rparr>) st ev"
  unfolding step_def activationStage_resolver resolveAll_cong [OF assms] ..

lemma outputs_cong:
  assumes "\<forall>n url. fetchScriptURL (r1 n url) = fetchScriptURL (r2 n url)"
  shows "outputs (svc\<lparr>getScriptURLForExtension := r1\<rparr>) st evs =
         outputs (svc\<lparr>getScriptURLForExtension := r2\<rparr>) st evs"
  by (induction evs arbitrary: st) (simp_all add: step_cong [OF assms])

lemma step_Settle_state: "fst (step svc st Settle) = st\<lparr>pending := None\<rparr>"
  by (cases st) (simp add: step_Settle split: option.splits sum.splits)

lemma outputs_Settle:
  "outputs svc st (Settle # evs) = outputs svc st [Settle] @ outputs svc (st\<lparr>pending := None\<rparr>) evs"
  by (simp add: step_Settle_state)

lemma outputs_Settle_pending:
  "outputs svc st [Settle] =
     (case pending st of Some (Inr batch) \<Rightarrow> [executable batch] | _ \<Rightarrow> [])"
  by (simp add: step_Settle split: option.splits sum.splits)

lemma step_Input_emits: "snd (step svc st (Input input)) = None"
  by (simp add: step_def Let_def split: prod.splits option.splits)

lemma activationStage_pending:
  "activationStage svc (st\<lparr>pending := p\<rparr>) input =
     (fst (activationStage svc st input)\<lparr>pending := p\<rparr>, snd (activationStage svc st input))"
  by (simp add: activationStage_def Let_def split: prod.splits option.splits)

lemma step_Input_pending_suppressed:
  assumes "snd (activationStage svc st input) = None"
  shows "pending (fst (step svc st (Input input))) = pending st"
    and "fst (step svc (st\<lparr>pending := p\<rparr>) (Input input)) =
           fst (step svc st (Input input))\<lparr>pending := p\<rparr>"
proof -
  obtain st1 where a: "activationStage svc st input = (st1, None)"
    using assms by (cases "activationStage svc st input") simp
  obtain model xs where i: "input = (model, xs)" by (cases input)
  from activationStage_fields(6) [OF a [unfolded i]] step_Input_suppressed [OF a]
  show "pending (fst (step svc st (Input input))) = pending st" by simp
  from a have "activationStage svc (st\<lparr>pending := p\<rparr>) input = (st1\<lparr>pending := p\<rparr>, None)"
    by (simp add: activationStage_pending)
  from step_Input_suppressed [OF this] step_Input_suppressed [OF a]
  show "fst (step svc (st\<lparr>pending := p\<rparr>) (Input input)) =
           fst (step svc st (Input input))\<lparr>pending := p\<rparr>" by simp
qed

lemma step_Input_pending_passed:
  assumes "snd (activationStage svc st input) = Some l"
  shows "fst (step svc (st\<lparr>pending := p\<rparr>) (Input input)) = fst (step svc st (Input input))"
proof -
  obtain st1 where a: "activationStage svc st input = (st1, Some l)"
    using assms by (cases "activationStage svc st input") simp
  obtain batch c calls where r: "resolveAll svc l (cache st1, invocations st1) = (batch, c, calls)"
    by (metis prod_cases3)
  from a have a': "activationStage svc (st\<lparr>pending := p\<rparr>) input = (st1\<lparr>pending := p\<rparr>, Some l)"
    by (simp add: activationStage_pending)
  from r have "resolveAll svc l (cache (st1\<lparr>pending := p\<rparr>), invocations (st1\<lparr>pending := p\<rparr>)) =
                 (batch, c, calls)" by simp
  from step_Input_passed [OF a' this] step_Input_passed [OF a r] show ?thesis by simp
qed

lemma outputs_subseq_promptly:
  "subseq (outputs svc st evs)
     (outputs svc st [Settle] @ outputs svc (st\<lparr>pending := None\<rparr>) (promptly (inputsOf evs)))"
proof (induction evs arbitrary: st)
  case Nil
  show ?case by simp
next
  case (Cons ev evs)
  show ?case
  proof (cases ev)
    case Settle
    have e: "outputs svc (st\<lparr>pending := None\<rparr>) [Settle] = []"
      by (simp add: step_Settle)
    have u: "st\<lparr>pending := None, pending := None\<rparr> = st\<lparr>pending := None\<rparr>" by simp
    from Cons [of "st\<lparr>pending := None\<rparr>"]
    have "subseq (outputs svc (st\<lparr>pending := None\<rparr>) evs)
            (outputs svc (st\<lparr>pending := None\<rparr>) (promptly (inputsOf evs)))"
      by (simp only: e u append_Nil)
    then have "subseq (outputs svc st [Settle] @ outputs svc (st\<lparr>pending := None\<rparr>) evs)
            (outputs svc st [Settle] @ outputs svc (st\<lparr>pending := None\<rparr>) (promptly (inputsOf evs)))"
      by (intro list_emb_append_mono) simp_all
    then show ?thesis unfolding Settle outputs_Settle [of svc st evs] by simp
  next
    case (Input input)
    let ?st1 = "fst (step svc st (Input input))"
    let ?s1 = "fst (step svc (st\<lparr>pending := None\<rparr>) (Input input))"
    let ?rest = "promptly (inputsOf evs)"
    have l: "outputs svc st (ev # evs) = outputs svc ?st1 evs"
      unfolding Input by (simp add: step_Input_emits)
    have r: "outputs svc (st\<lparr>pending := None\<rparr>) (promptly (inputsOf (ev # evs))) =
               outputs svc ?s1 [Settle] @ outputs svc (?s1\<lparr>pending := None\<rparr>) ?rest"
      unfolding Input by (simp add: step_Input_emits step_Settle_state)
    note ih = Cons [of ?st1]
    show ?thesis
    proof (cases "snd (activationStage svc st input)")
      case None
      note s = step_Input_pending_suppressed [OF None]
      have e1: "outputs svc ?st1 [Settle] = outputs svc st [Settle]"
        by (simp only: outputs_Settle_pending s(1))
      have "pending ?s1 = None" by (simp add: s(2))
      then have e2: "outputs svc ?s1 [Settle] = []"
        by (simp only: outputs_Settle_pending option.case)
      have e3: "?s1\<lparr>pending := None\<rparr> = ?st1\<lparr>pending := None\<rparr>"
        by (simp add: s(2))
      have "outputs svc st [Settle] @
              outputs svc (st\<lparr>pending := None\<rparr>) (promptly (inputsOf (ev # evs))) =
            outputs svc ?st1 [Settle] @ outputs svc (?st1\<lparr>pending := None\<rparr>) ?rest"
        by (simp only: r e1 e2 e3 append_Nil)
      with ih show ?thesis by (simp only: l)
    next
      case (Some l')
      have "?s1 = ?st1" by (rule step_Input_pending_passed [OF Some])
      with ih have "subseq (outputs svc ?st1 evs)
          (outputs svc ?s1 [Settle] @ outputs svc (?s1\<lparr>pending := None\<rparr>) ?rest)" by simp
      then show ?thesis unfolding l r by (rule list_emb_append2)
    qed
  qed
qed

lemma outputs_prompt:
  assumes "prompt evs" and "pending st = None"
  shows "outputs svc st evs = outputs svc st (promptly (inputsOf evs))"
  using assms
proof (induction evs arbitrary: st rule: prompt.induct)
  case 1
  show ?case by simp
next
  case (2 evs)
  from 2 show ?case by (simp add: step_Settle)
next
  case (3 input)
  then show ?case by simp
next
  case (4 input evs)
  have "pending (fst (step svc (fst (step svc st (Input input))) Settle)) = None"
    by (simp add: step_Settle_state)
  with 4 show ?case by simp
next
  case (5 input input' evs)
  then show ?case by simp
qed

lemma step_no_error:
  assumes "\<forall>n url. returns (getScriptURLForExtension svc n url)"
    and "\<forall>e. pending st \<noteq> Some (Inl e)"
  shows "\<forall>e. pending (fst (step svc st ev)) \<noteq> Some (Inl e)"
proof (cases ev)
  case Settle
  then show ?thesis by (simp add: step_Settle_state)
next
  case (Input input)
  show ?thesis
  proof (cases "snd (activationStage svc st input)")
    case None
    with assms(2) show ?thesis unfolding Input by (simp add: step_Input_pending_suppressed(1))
  next
    case (Some l)
    from step_Input_pending [OF Some] assms(1) show ?thesis unfolding Input by auto
  qed
qed

lemma isRun_no_error:
  assumes "\<forall>n url. returns (getScriptURLForExtension svc n url)"
    and "\<forall>e. pending st \<noteq> Some (Inl e)"
  shows "isRun svc st evs"
  using assms(2)
proof (induction evs arbitrary: st)
  case Nil
  show ?case by simp
next
  case (Cons ev evs)
  from Cons.prems have "errorOf st ev = None"
    by (auto simp: errorOf_def split: event.splits option.splits sum.splits)
  with Cons.IH [OF step_no_error [OF assms(1) Cons.prems]] show ?case by simp
qed

subsection \<open>C9: determinism\<close>

text \<open>
  C9, as stated, fails: the deliveries and the resolver do not fix the emitted lists,
  since a batch that is still pending when the next changed list arrives is dropped by
  \<^verbatim>\<open>switchMap\<close>. The two runs below have the same deliveries and the same resolver;
  in the first the batch of the first delivery settles before the second delivery, in
  the second it does not, and the first run emits a list the second never emits.
\<close>

theorem settling_order_changes_outputs:
  "inputsOf runSettled = inputsOf runSwitched \<and>
   outputs exampleService initial runSettled =
     [[\<lparr>id_exe = ''a'', scriptURL = ''blob:u1''\<rparr>],
      [\<lparr>id_exe = ''a'', scriptURL = ''blob:u1''\<rparr>, \<lparr>id_exe = ''b'', scriptURL = ''blob:u2''\<rparr>]] \<and>
   outputs exampleService initial runSwitched =
     [[\<lparr>id_exe = ''a'', scriptURL = ''blob:u1''\<rparr>, \<lparr>id_exe = ''b'', scriptURL = ''blob:u2''\<rparr>]] \<and>
   outputs exampleService initial runSettled \<noteq> outputs exampleService initial runSwitched"
  by (simp add: runSettled_def runSwitched_def example_defs engine_defs)

text \<open>
  C9, amended. For two runs with the same sequence of deliveries, the lists that leave
  the activation stage are the same, whenever the batches settle and whatever the
  resolvers do. If moreover no invocation of either resolver throws and the resolvers
  give the same answer to every invocation (a rejection counting as null), then
  neither run ends with an error, the lists the first run emits are a subsequence of
  the lists emitted when every batch settles before the next delivery, and they are
  all of these lists if in the first run every delivery is followed at once by the
  settling of its batch; so two such runs emit the same lists.
\<close>

theorem deterministic_when_settled:
  assumes "inputsOf evs1 = inputsOf evs2"
  shows "passed (svc\<lparr>getScriptURLForExtension := r1\<rparr>) initial evs1 =
           passed (svc\<lparr>getScriptURLForExtension := r2\<rparr>) initial evs2 \<and>
         ((\<forall>n url. returns (r1 n url) \<and> returns (r2 n url) \<and>
                   answer (r1 n url) = answer (r2 n url)) \<longrightarrow>
            isRun (svc\<lparr>getScriptURLForExtension := r1\<rparr>) initial evs1 \<and>
            isRun (svc\<lparr>getScriptURLForExtension := r2\<rparr>) initial evs2 \<and>
            subseq (outputs (svc\<lparr>getScriptURLForExtension := r1\<rparr>) initial evs1)
              (outputs (svc\<lparr>getScriptURLForExtension := r2\<rparr>) initial
                 (promptly (inputsOf evs2))) \<and>
            (prompt evs1 \<longrightarrow>
               outputs (svc\<lparr>getScriptURLForExtension := r1\<rparr>) initial evs1 =
                 outputs (svc\<lparr>getScriptURLForExtension := r2\<rparr>) initial
                   (promptly (inputsOf evs2))) \<and>
            (prompt evs1 \<and> prompt evs2 \<longrightarrow>
               outputs (svc\<lparr>getScriptURLForExtension := r1\<rparr>) initial evs1 =
                 outputs (svc\<lparr>getScriptURLForExtension := r2\<rparr>) initial evs2))"
proof -
  let ?svc1 = "svc\<lparr>getScriptURLForExtension := r1\<rparr>"
  let ?svc2 = "svc\<lparr>getScriptURLForExtension := r2\<rparr>"
  have p: "passed ?svc1 initial evs1 = passed ?svc2 initial evs2"
    using assms by (simp add: passed_stageLists)
  have q: "isRun ?svc1 initial evs1 \<and> isRun ?svc2 initial evs2 \<and>
           subseq (outputs ?svc1 initial evs1) (outputs ?svc2 initial (promptly (inputsOf evs2))) \<and>
           (prompt evs1 \<longrightarrow>
              outputs ?svc1 initial evs1 = outputs ?svc2 initial (promptly (inputsOf evs2))) \<and>
           (prompt evs1 \<and> prompt evs2 \<longrightarrow> outputs ?svc1 initial evs1 = outputs ?svc2 initial evs2)"
    if h: "\<forall>n url. returns (r1 n url) \<and> returns (r2 n url) \<and> answer (r1 n url) = answer (r2 n url)"
  proof -
    from h have f: "\<forall>n url. fetchScriptURL (r1 n url) = fetchScriptURL (r2 n url)"
      by (simp add: fetchScriptURL_answer)
    have n: "\<forall>e. pending (initial :: 'a EngineState) \<noteq> Some (Inl e)"
      "pending (initial :: 'a EngineState) = None"
      by (simp_all add: initial_def)
    have i: "outputs ?svc1 (initial :: 'a EngineState) [Settle] = []"
      "outputs ?svc2 (initial :: 'a EngineState) [Settle] = []"
      "(initial :: 'a EngineState)\<lparr>pending := None\<rparr> = initial"
      by (simp_all add: initial_def step_Settle)
    from h have "isRun ?svc1 initial evs1" by (intro isRun_no_error n(1)) simp
    moreover from h have "isRun ?svc2 initial evs2" by (intro isRun_no_error n(1)) simp
    moreover have s: "subseq (outputs ?svc1 initial evs1)
        (outputs ?svc2 initial (promptly (inputsOf evs2)))"
      using outputs_subseq_promptly [of ?svc1 initial evs1]
      by (simp only: i append_Nil assms outputs_cong [OF f])
    moreover have e1: "outputs ?svc1 initial evs1 = outputs ?svc2 initial (promptly (inputsOf evs2))"
      if "prompt evs1"
      using outputs_prompt [OF that n(2), of ?svc1] by (simp only: assms outputs_cong [OF f])
    moreover have "outputs ?svc1 initial evs1 = outputs ?svc2 initial evs2"
      if "prompt evs1" "prompt evs2"
      using e1 [OF that(1)] outputs_prompt [OF that(2) n(2), of ?svc2] by simp
    ultimately show ?thesis by blast
  qed
  from p q show ?thesis by blast
qed

lemma hostResolver_answers:
  "\<forall>n url. returns (hostResolver n url) \<and> returns (hostResolverNull n url) \<and>
            answer (hostResolver n url) = answer (hostResolverNull n url)"
  by (simp add: hostResolver_def hostResolverNull_def returns_def answer_def)

lemma runsPythonGo_inputs: "inputsOf runPythonGoSwitched = inputsOf runPythonThenGo"
  by (simp add: runPythonGoSwitched_def runPythonThenGo_def)

lemma runPythonThenGo_inputs:
  "inputsOf runPythonThenGo = inputsOf (promptly (inputsOf runPythonThenGo))"
  by (simp add: runPythonThenGo_def)

lemma runPythonThenGo_prompt:
  "prompt runPythonThenGo \<and> prompt (promptly (inputsOf runPythonThenGo)) \<and>
   runPythonThenGo \<noteq> promptly (inputsOf runPythonThenGo)"
  by (simp add: runPythonThenGo_def)

lemma runPythonGo_outputs:
  "invocations (exec (exampleService\<lparr>getScriptURLForExtension := hostResolver\<rparr>) initial
      runPythonThenGo) = [''u2'', ''u1'']"
  "outputs (exampleService\<lparr>getScriptURLForExtension := hostResolver\<rparr>) initial
      runPythonGoSwitched = [[\<lparr>id_exe = ''a'', scriptURL = ''blob:u1''\<rparr>]]"
  "outputs (exampleService\<lparr>getScriptURLForExtension := hostResolverNull\<rparr>) initial
      (promptly (inputsOf runPythonThenGo)) = [[], [\<lparr>id_exe = ''a'', scriptURL = ''blob:u1''\<rparr>]]"
  by (simp_all add: runPythonThenGo_def runPythonGoSwitched_def hostResolverNull_def example_defs
      engine_defs)

theorem deterministic_when_settled_witness:
  "inputsOf runPythonGoSwitched = inputsOf runPythonThenGo \<and>
   hostResolver 0 ''u2'' = Rejected ''offline'' \<and>
   hostResolverNull 0 ''u2'' = Fulfilled None \<and>
   invocations (exec (exampleService\<lparr>getScriptURLForExtension := hostResolver\<rparr>) initial
      runPythonThenGo) = [''u2'', ''u1''] \<and>
   (\<forall>n url. returns (hostResolver n url) \<and> returns (hostResolverNull n url) \<and>
             answer (hostResolver n url) = answer (hostResolverNull n url)) \<and>
   passed (exampleService\<lparr>getScriptURLForExtension := hostResolver\<rparr>) initial
      runPythonGoSwitched =
     passed (exampleService\<lparr>getScriptURLForExtension := hostResolverNull\<rparr>) initial
       runPythonThenGo \<and>
   isRun (exampleService\<lparr>getScriptURLForExtension := hostResolver\<rparr>) initial
      runPythonGoSwitched \<and>
   outputs (exampleService\<lparr>getScriptURLForExtension := hostResolver\<rparr>) initial
      runPythonGoSwitched = [[\<lparr>id_exe = ''a'', scriptURL = ''blob:u1''\<rparr>]] \<and>
   outputs (exampleService\<lparr>getScriptURLForExtension := hostResolverNull\<rparr>) initial
      (promptly (inputsOf runPythonThenGo)) = [[], [\<lparr>id_exe = ''a'', scriptURL = ''blob:u1''\<rparr>]] \<and>
   subseq
     (outputs (exampleService\<lparr>getScriptURLForExtension := hostResolver\<rparr>) initial
        runPythonGoSwitched)
     (outputs (exampleService\<lparr>getScriptURLForExtension := hostResolverNull\<rparr>) initial
        (promptly (inputsOf runPythonThenGo))) \<and>
   prompt runPythonThenGo \<and>
   prompt (promptly (inputsOf runPythonThenGo)) \<and>
   runPythonThenGo \<noteq> promptly (inputsOf runPythonThenGo) \<and>
   outputs (exampleService\<lparr>getScriptURLForExtension := hostResolver\<rparr>) initial runPythonThenGo =
     outputs (exampleService\<lparr>getScriptURLForExtension := hostResolverNull\<rparr>) initial
       (promptly (inputsOf runPythonThenGo))"
proof -
  have r: "hostResolver 0 ''u2'' = Rejected ''offline''" "hostResolverNull 0 ''u2'' = Fulfilled None"
    by (simp_all add: hostResolver_def hostResolverNull_def)
  note a = deterministic_when_settled [where svc = exampleService and ?r1.0 = hostResolver
      and ?r2.0 = hostResolverNull, OF runsPythonGo_inputs]
  note b = deterministic_when_settled [where svc = exampleService and ?r1.0 = hostResolver
      and ?r2.0 = hostResolverNull, OF runPythonThenGo_inputs]
  note a1 = a [THEN conjunct1]
  note a2 = a [THEN conjunct2, THEN mp, OF hostResolver_answers]
  note b2 = b [THEN conjunct2, THEN mp, OF hostResolver_answers]
  note p = runPythonThenGo_prompt
  note e = b2 [THEN conjunct2, THEN conjunct2, THEN conjunct2, THEN conjunct2, THEN mp,
      OF conjI, OF p [THEN conjunct1] p [THEN conjunct2, THEN conjunct1]]
  from r runsPythonGo_inputs runPythonGo_outputs hostResolver_answers a1
    a2 [THEN conjunct1] a2 [THEN conjunct2, THEN conjunct2, THEN conjunct1] p e
  show ?thesis by simp
qed

end
